theory Spec2Isabelle
  imports Main "HOL-Library.Word"
begin

unbundle bit_operations_syntax

section \<open>Basic types\<close>

text \<open>
  SaveStructure.hpp: \<open>u8\<close>, \<open>u16\<close>, \<open>u32\<close> are the fixed-width unsigned integers of
  \<open>cstdint\<close>. \<open>std::size_t\<close> is taken as the 64-bit unsigned integer of the platforms
  the project builds on, so that \<open>off + len\<close> wraps around as in the code.
\<close>

type_synonym u8 = "8 word"
type_synonym u16 = "16 word"
type_synonym u32 = "32 word"
type_synonym size_t = "64 word"

text \<open>
  Every \<open>throw\<close> of SaveStructure.cpp, one constructor per throw site:
  \<^item> \<open>OffsetOutOfRange\<close>: \<open>std::out_of_range("SaveBuffer: offset out of range")\<close>
  \<^item> \<open>RangeOutOfRange\<close>: \<open>std::out_of_range("SaveBuffer: range out of range")\<close>
  \<^item> \<open>BitIndexOutOfRange\<close>: \<open>std::out_of_range("SaveBuffer: bitIndex must be 0..7")\<close>
  \<^item> \<open>BoxIndexOutOfRange\<close>: \<open>std::out_of_range("Gen1Layout: box index must be 1..12")\<close>
  \<^item> \<open>Bcd3ValueOutOfRange\<close>: \<open>std::out_of_range("WriteBcd3: value must be 0..999999")\<close>
  \<^item> \<open>Bcd2ValueOutOfRange\<close>: \<open>std::out_of_range("WriteBcd2: value must be 0..9999")\<close>
  \<^item> \<open>ChecksumEndBeforeStart\<close>: \<open>std::invalid_argument("Checksum: end < start")\<close>
  \<^item> \<open>BankIndexInvalid\<close>:
    \<open>std::invalid_argument("ComputeBankAll: bank index must be 2 or 3")\<close>
\<close>

datatype error =
    OffsetOutOfRange
  | RangeOutOfRange
  | BitIndexOutOfRange
  | BoxIndexOutOfRange
  | Bcd3ValueOutOfRange
  | Bcd2ValueOutOfRange
  | ChecksumEndBeforeStart
  | BankIndexInvalid

text \<open>
  The error taxonomy of the specification (section 7), as a classification of the throw
  sites: OutOfRange is any offset/length exceeding the buffer bounds or a bit index
  outside 0..7; InvalidIndex is a box index outside 1..12 or a bank index outside the two
  valid values; ValueOutOfRange is a packed-decimal value too large for its width. The
  empty-range check of the checksum primitive is in none of the three classes.
\<close>

datatype error_kind = OutOfRange | InvalidIndex | ValueOutOfRange | InvalidArgument

fun kind_of :: "error \<Rightarrow> error_kind" where
  "kind_of OffsetOutOfRange = OutOfRange"
| "kind_of RangeOutOfRange = OutOfRange"
| "kind_of BitIndexOutOfRange = OutOfRange"
| "kind_of BoxIndexOutOfRange = InvalidIndex"
| "kind_of BankIndexInvalid = InvalidIndex"
| "kind_of Bcd3ValueOutOfRange = ValueOutOfRange"
| "kind_of Bcd2ValueOutOfRange = ValueOutOfRange"
| "kind_of ChecksumEndBeforeStart = InvalidArgument"

section \<open>SaveBuffer\<close>

text \<open>
  \<open>class SaveBuffer\<close> has the single field \<open>bytes_\<close>, a \<open>std::vector<u8>\<close>; a buffer
  is that byte sequence. A reading member function returns \<open>error + value\<close>. A mutating
  member function returns the exception it threw, if any, together with the buffer as it
  is when the call ends, which is what a caller catching the exception observes.
\<close>

type_synonym Bytes = "u8 list"
type_synonym SaveBuffer = "u8 list"
type_synonym 'a result = "error + 'a"
type_synonym mutation = "error option \<times> SaveBuffer"

definition Size :: "SaveBuffer \<Rightarrow> nat" where
  "Size bytes = length bytes"

definition RequireRange :: "SaveBuffer \<Rightarrow> size_t \<Rightarrow> size_t \<Rightarrow> error option" where
  "RequireRange bytes off len =
     (if len = 0 then None
      else if unat off > Size bytes then Some OffsetOutOfRange
      else (let end = off + len in
            if end < off \<or> unat end > Size bytes then Some RangeOutOfRange else None))"

definition ReadU8 :: "SaveBuffer \<Rightarrow> size_t \<Rightarrow> u8 result" where
  "ReadU8 bytes off =
     (case RequireRange bytes off 1 of
        Some e \<Rightarrow> Inl e
      | None \<Rightarrow> Inr (bytes ! unat off))"

definition ReadU16LE :: "SaveBuffer \<Rightarrow> size_t \<Rightarrow> u16 result" where
  "ReadU16LE bytes off =
     (case RequireRange bytes off 2 of
        Some e \<Rightarrow> Inl e
      | None \<Rightarrow> Inr (ucast (bytes ! unat off) OR push_bit 8 (ucast (bytes ! unat (off + 1)))))"

definition ReadU24BE :: "SaveBuffer \<Rightarrow> size_t \<Rightarrow> u32 result" where
  "ReadU24BE bytes off =
     (case RequireRange bytes off 3 of
        Some e \<Rightarrow> Inl e
      | None \<Rightarrow> Inr (push_bit 16 (ucast (bytes ! unat off))
                     OR push_bit 8 (ucast (bytes ! unat (off + 1)))
                     OR ucast (bytes ! unat (off + 2))))"

definition WriteU8 :: "SaveBuffer \<Rightarrow> size_t \<Rightarrow> u8 \<Rightarrow> mutation" where
  "WriteU8 bytes off v =
     (case RequireRange bytes off 1 of
        Some e \<Rightarrow> (Some e, bytes)
      | None \<Rightarrow> (None, bytes[unat off := v]))"

definition WriteU16LE :: "SaveBuffer \<Rightarrow> size_t \<Rightarrow> u16 \<Rightarrow> mutation" where
  "WriteU16LE bytes off v =
     (case RequireRange bytes off 2 of
        Some e \<Rightarrow> (Some e, bytes)
      | None \<Rightarrow> (None, bytes[unat off := ucast (v AND 0xFF),
                              unat (off + 1) := ucast (drop_bit 8 v AND 0xFF)]))"

definition WriteU24BE :: "SaveBuffer \<Rightarrow> size_t \<Rightarrow> u32 \<Rightarrow> mutation" where
  "WriteU24BE bytes off v =
     (case RequireRange bytes off 3 of
        Some e \<Rightarrow> (Some e, bytes)
      | None \<Rightarrow> (None, bytes[unat off := ucast (drop_bit 16 v AND 0xFF),
                              unat (off + 1) := ucast (drop_bit 8 v AND 0xFF),
                              unat (off + 2) := ucast (v AND 0xFF)]))"

definition GetBit :: "SaveBuffer \<Rightarrow> size_t \<Rightarrow> u8 \<Rightarrow> bool result" where
  "GetBit bytes byteOff bitIndex0to7 =
     (if bitIndex0to7 \<ge> 8 then Inl BitIndexOutOfRange
      else case RequireRange bytes byteOff 1 of
        Some e \<Rightarrow> Inl e
      | None \<Rightarrow> (let mask = (push_bit (unat bitIndex0to7) 1 :: u8)
                 in Inr ((bytes ! unat byteOff) AND mask \<noteq> 0)))"

definition SetBit :: "SaveBuffer \<Rightarrow> size_t \<Rightarrow> u8 \<Rightarrow> bool \<Rightarrow> mutation" where
  "SetBit bytes byteOff bitIndex0to7 val =
     (if bitIndex0to7 \<ge> 8 then (Some BitIndexOutOfRange, bytes)
      else case RequireRange bytes byteOff 1 of
        Some e \<Rightarrow> (Some e, bytes)
      | None \<Rightarrow> (let mask = (push_bit (unat bitIndex0to7) 1 :: u8)
                 in if val
                    then (None, bytes[unat byteOff := (bytes ! unat byteOff) OR mask])
                    else (None, bytes[unat byteOff := (bytes ! unat byteOff) AND NOT mask])))"

text \<open>
  \<open>Slice\<close> copies the iterator range from \<open>begin() + off\<close> to \<open>begin() + (off + len)\<close>:
  the elements at the indices \<open>off\<close>, ..., \<open>off + len - 1\<close>, none when \<open>len\<close> is 0.
\<close>

definition Slice :: "SaveBuffer \<Rightarrow> size_t \<Rightarrow> size_t \<Rightarrow> Bytes result" where
  "Slice bytes off len =
     (case RequireRange bytes off len of
        Some e \<Rightarrow> Inl e
      | None \<Rightarrow> Inr (map (\<lambda>i. bytes ! i) [unat off ..< unat (off + len)]))"

section \<open>Gen1Layout\<close>

definition ExpectedSize :: nat where "ExpectedSize = 0x8000"

definition Bank2Base :: size_t where "Bank2Base = 0x4000"
definition Bank3Base :: size_t where "Bank3Base = 0x6000"

definition HallOfFameOff :: size_t where "HallOfFameOff = 0x0598"
definition HallOfFameLen :: size_t where "HallOfFameLen = 0x12C0"
definition HallOfFameMaxRecords :: nat where "HallOfFameMaxRecords = 50"
definition HallOfFameRecordSize :: size_t where "HallOfFameRecordSize = 0x0060"
definition HallOfFameMonsPerRecord :: nat where "HallOfFameMonsPerRecord = 6"
definition HallOfFameMonEntrySize :: size_t where "HallOfFameMonEntrySize = 0x0010"
definition HallOfFameRecordCountOff :: size_t where "HallOfFameRecordCountOff = 0x284E"

definition MainChecksumStart :: size_t where "MainChecksumStart = 0x2598"
definition MainChecksumEnd :: size_t where "MainChecksumEnd = 0x3522"
definition MainChecksumOff :: size_t where "MainChecksumOff = 0x3523"

definition BoxBlockSize :: size_t where "BoxBlockSize = 0x0462"
definition Box1Off :: size_t where "Box1Off = 0x4000"
definition Bank2AllChecksumOff :: size_t where "Bank2AllChecksumOff = 0x5A4C"
definition Bank2BoxChecksumsOff :: size_t where "Bank2BoxChecksumsOff = 0x5A4D"
definition Box7Off :: size_t where "Box7Off = 0x6000"
definition Bank3AllChecksumOff :: size_t where "Bank3AllChecksumOff = 0x7A4C"
definition Bank3BoxChecksumsOff :: size_t where "Bank3BoxChecksumsOff = 0x7A4D"

text \<open>
  The box index is a C++ \<open>int\<close>; the comparisons and the subtractions are exact on every
  \<open>int\<close> value, and \<open>static_cast<std::size_t>\<close> of the non-negative difference is
  \<open>word_of_int\<close>.
\<close>

definition BoxBaseOffsetByIndex1to12 :: "int \<Rightarrow> size_t result" where
  "BoxBaseOffsetByIndex1to12 boxIndex1to12 =
     (if boxIndex1to12 < 1 \<or> boxIndex1to12 > 12 then Inl BoxIndexOutOfRange
      else if boxIndex1to12 \<le> 6
        then Inr (Box1Off + word_of_int (boxIndex1to12 - 1) * BoxBlockSize)
        else Inr (Box7Off + word_of_int (boxIndex1to12 - 7) * BoxBlockSize))"

definition BankAllChecksumOffsetForBoxIndex1to12 :: "int \<Rightarrow> size_t result" where
  "BankAllChecksumOffsetForBoxIndex1to12 boxIndex1to12 =
     (if boxIndex1to12 < 1 \<or> boxIndex1to12 > 12 then Inl BoxIndexOutOfRange
      else Inr (if boxIndex1to12 \<le> 6 then Bank2AllChecksumOff else Bank3AllChecksumOff))"

definition BankPerBoxChecksumsBaseOffsetForBoxIndex1to12 :: "int \<Rightarrow> size_t result" where
  "BankPerBoxChecksumsBaseOffsetForBoxIndex1to12 boxIndex1to12 =
     (if boxIndex1to12 < 1 \<or> boxIndex1to12 > 12 then Inl BoxIndexOutOfRange
      else Inr (if boxIndex1to12 \<le> 6 then Bank2BoxChecksumsOff else Bank3BoxChecksumsOff))"

section \<open>Outcomes\<close>

text \<open>
  \<open>fails_with r k\<close>: the read \<open>r\<close> threw an exception of class \<open>k\<close>.
  \<open>throws m k\<close>: the mutation \<open>m\<close> threw an exception of class \<open>k\<close>.
\<close>

definition fails_with :: "'a result \<Rightarrow> error_kind \<Rightarrow> bool" where
  "fails_with r k = (case r of Inl e \<Rightarrow> kind_of e = k | Inr _ \<Rightarrow> False)"

definition throws :: "mutation \<Rightarrow> error_kind \<Rightarrow> bool" where
  "throws m k = (case fst m of Some e \<Rightarrow> kind_of e = k | None \<Rightarrow> False)"

section \<open>Gen1TextCodec\<close>

text \<open>
  \<open>char\<close> values are compared through their codes. The comparisons of the source give
  the same answers whether \<open>char\<close> is signed or unsigned: a code above 127 lies in none
  of the ranges either way.
\<close>

definition ByteToAscii :: "u8 \<Rightarrow> char" where
  "ByteToAscii byte =
     (if byte \<ge> 0x80 \<and> byte \<le> 0x99 then char_of (of_char CHR ''A'' + (unat byte - 0x80))
      else if byte \<ge> 0xA0 \<and> byte \<le> 0xA9 then char_of (of_char CHR ''0'' + (unat byte - 0xA0))
      else if byte = 0x7F then CHR '' ''
      else if byte = 0x50 then CHR 0x00
      else CHR ''?'')"

definition AsciiToByte :: "char \<Rightarrow> u8" where
  "AsciiToByte c0 =
     (let c = (if (of_char CHR ''a'' :: nat) \<le> of_char c0 \<and> (of_char c0 :: nat) \<le> of_char CHR ''z''
               then char_of ((of_char c0 :: nat) - of_char CHR ''a'' + of_char CHR ''A'')
               else c0)
      in if (of_char CHR ''A'' :: nat) \<le> of_char c \<and> (of_char c :: nat) \<le> of_char CHR ''Z''
           then of_nat (0x80 + (of_char c - of_char CHR ''A''))
         else if (of_char CHR ''0'' :: nat) \<le> of_char c \<and> (of_char c :: nat) \<le> of_char CHR ''9''
           then of_nat (0xA0 + (of_char c - of_char CHR ''0''))
         else if c = CHR '' '' then 0x7F
         else 0x7F)"

text \<open>The range-for loop of \<open>DecodeName\<close>, with \<open>out\<close> as the accumulator.\<close>

fun DecodeName_loop :: "Bytes \<Rightarrow> string \<Rightarrow> string" where
  "DecodeName_loop [] out = out"
| "DecodeName_loop (b # bytes) out =
     (let c = ByteToAscii b
      in if c = CHR 0x00 then out else DecodeName_loop bytes (out @ [c]))"

definition DecodeName :: "SaveBuffer \<Rightarrow> size_t \<Rightarrow> size_t \<Rightarrow> string result" where
  "DecodeName sb off len =
     (case Slice sb off len of
        Inl e \<Rightarrow> Inl e
      | Inr bytes \<Rightarrow> Inr (DecodeName_loop bytes []))"

text \<open>The loop \<open>for (i = 0; i < n; ++i) out[i] = AsciiToByte(name[i])\<close>.\<close>

function EncodeName_loop :: "string \<Rightarrow> nat \<Rightarrow> nat \<Rightarrow> Bytes \<Rightarrow> Bytes" where
  "EncodeName_loop name i n out =
     (if i < n then EncodeName_loop name (Suc i) n (out[i := AsciiToByte (name ! i)]) else out)"
  by pat_completeness auto
termination
  by (relation "measure (\<lambda>(name, i, n, out). n - i)") auto

text \<open>\<open>std::copy(first, last, dest)\<close> into the buffer, \<open>k\<close> being the index of \<open>dest\<close>.\<close>

fun copy_bytes :: "Bytes \<Rightarrow> SaveBuffer \<Rightarrow> nat \<Rightarrow> SaveBuffer" where
  "copy_bytes [] bytes k = bytes"
| "copy_bytes (x # xs) bytes k = copy_bytes xs (bytes[k := x]) (Suc k)"

text \<open>
  \<open>name.size()\<close> is \<open>length name\<close>; \<open>len - 1\<close> does not wrap since \<open>len\<close> is not 0 there.
  The allocation of \<open>out\<close> is taken to succeed.
\<close>

definition EncodeName :: "SaveBuffer \<Rightarrow> size_t \<Rightarrow> size_t \<Rightarrow> string \<Rightarrow> mutation" where
  "EncodeName sb off len name =
     (if len = 0 then (None, sb)
      else (let out0 = replicate (unat len) (0x50 :: u8);
                n = min (length name) (unat (len - 1));
                out1 = EncodeName_loop name 0 n out0;
                out = out1[n := 0x50]
            in case RequireRange sb off len of
                 Some e \<Rightarrow> (Some e, sb)
               | None \<Rightarrow> (None, copy_bytes out sb (unat off))))"

section \<open>BcdCodec\<close>

definition bcdDigit :: "u8 \<Rightarrow> u32" where
  "bcdDigit nibble = (if nibble \<le> 9 then ucast nibble else 0)"

definition ReadBcd3 :: "SaveBuffer \<Rightarrow> size_t \<Rightarrow> u32 result" where
  "ReadBcd3 sb off =
     (case ReadU8 sb off of Inl e \<Rightarrow> Inl e | Inr b0 \<Rightarrow>
      case ReadU8 sb (off + 1) of Inl e \<Rightarrow> Inl e | Inr b1 \<Rightarrow>
      case ReadU8 sb (off + 2) of Inl e \<Rightarrow> Inl e | Inr b2 \<Rightarrow>
        (let d0 = bcdDigit (drop_bit 4 b0 AND 0xF);
             d1 = bcdDigit (b0 AND 0xF);
             d2 = bcdDigit (drop_bit 4 b1 AND 0xF);
             d3 = bcdDigit (b1 AND 0xF);
             d4 = bcdDigit (drop_bit 4 b2 AND 0xF);
             d5 = bcdDigit (b2 AND 0xF)
         in Inr (d0 * 100000 + d1 * 10000 + d2 * 1000 + d3 * 100 + d4 * 10 + d5)))"

definition WriteBcd3 :: "SaveBuffer \<Rightarrow> size_t \<Rightarrow> u32 \<Rightarrow> mutation" where
  "WriteBcd3 sb off val =
     (if val > 999999 then (Some Bcd3ValueOutOfRange, sb)
      else (let d0 = (val div 100000) mod 10;
                d1 = (val div 10000) mod 10;
                d2 = (val div 1000) mod 10;
                d3 = (val div 100) mod 10;
                d4 = (val div 10) mod 10;
                d5 = val mod 10;
                b0 = (ucast (push_bit 4 d0 OR d1) :: u8);
                b1 = (ucast (push_bit 4 d2 OR d3) :: u8);
                b2 = (ucast (push_bit 4 d4 OR d5) :: u8)
            in case WriteU8 sb off b0 of (Some e, sb1) \<Rightarrow> (Some e, sb1) | (None, sb1) \<Rightarrow>
               case WriteU8 sb1 (off + 1) b1 of (Some e, sb2) \<Rightarrow> (Some e, sb2) | (None, sb2) \<Rightarrow>
               WriteU8 sb2 (off + 2) b2))"

definition ReadBcd2 :: "SaveBuffer \<Rightarrow> size_t \<Rightarrow> u16 result" where
  "ReadBcd2 sb off =
     (case ReadU8 sb off of Inl e \<Rightarrow> Inl e | Inr b0 \<Rightarrow>
      case ReadU8 sb (off + 1) of Inl e \<Rightarrow> Inl e | Inr b1 \<Rightarrow>
        (let d0 = bcdDigit (drop_bit 4 b0 AND 0xF);
             d1 = bcdDigit (b0 AND 0xF);
             d2 = bcdDigit (drop_bit 4 b1 AND 0xF);
             d3 = bcdDigit (b1 AND 0xF);
             val = d0 * 1000 + d1 * 100 + d2 * 10 + d3
         in Inr (ucast val)))"

definition WriteBcd2 :: "SaveBuffer \<Rightarrow> size_t \<Rightarrow> u16 \<Rightarrow> mutation" where
  "WriteBcd2 sb off val =
     (if val > 9999 then (Some Bcd2ValueOutOfRange, sb)
      else (let v = (ucast val :: u32);
                d0 = (v div 1000) mod 10;
                d1 = (v div 100) mod 10;
                d2 = (v div 10) mod 10;
                d3 = v mod 10;
                b0 = (ucast (push_bit 4 d0 OR d1) :: u8);
                b1 = (ucast (push_bit 4 d2 OR d3) :: u8)
            in case WriteU8 sb off b0 of (Some e, sb1) \<Rightarrow> (Some e, sb1) | (None, sb1) \<Rightarrow>
               WriteU8 sb1 (off + 1) b1))"

section \<open>Gen1Checksum\<close>

text \<open>
  The loop \<open>for (i = startInclusive; i <= endInclusive; ++i) sum += sb.ReadU8(i)\<close>. It
  ends: the index only grows while \<open>ReadU8\<close> succeeds, and \<open>ReadU8\<close> throws at the
  largest \<open>size_t\<close> value, where \<open>++i\<close> would wrap around.
\<close>

function sumAndInvert8_loop :: "SaveBuffer \<Rightarrow> size_t \<Rightarrow> size_t \<Rightarrow> u32 \<Rightarrow> u32 result" where
  "sumAndInvert8_loop sb i endInclusive sum32 =
     (if i \<le> endInclusive
      then (case ReadU8 sb i of
              Inl e \<Rightarrow> Inl e
            | Inr b \<Rightarrow> sumAndInvert8_loop sb (i + 1) endInclusive (sum32 + ucast b))
      else Inr sum32)"
  by pat_completeness auto
termination
proof (relation "measure (\<lambda>(sb, i, endInclusive, sum32). 2 ^ 64 - unat i)")
  show "wf (measure (\<lambda>(sb, i, endInclusive, sum32). 2 ^ 64 - unat i))" by simp
next
  fix sb :: SaveBuffer and i endInclusive :: size_t and sum32 :: u32 and b :: u8
  assume "i \<le> endInclusive" and rd: "ReadU8 sb i = Inr b"
  have "RequireRange sb i 1 = None"
    using rd by (simp add: ReadU8_def split: option.splits)
  then have "\<not> i + 1 < i"
    by (simp add: RequireRange_def Let_def split: if_splits)
  then have "i \<le> i + 1" by simp
  then have "unat (i + 1) = unat i + 1"
    by (simp add: unat_plus_simple)
  moreover have "unat (i + 1) < 2 ^ 64"
    using unsigned_less [of "i + 1"] by simp
  ultimately show "((sb, i + 1, endInclusive, sum32 + ucast b), (sb, i, endInclusive, sum32))
      \<in> measure (\<lambda>(sb, i, endInclusive, sum32). 2 ^ 64 - unat i)"
    by simp
qed

definition sumAndInvert8 :: "SaveBuffer \<Rightarrow> size_t \<Rightarrow> size_t \<Rightarrow> u8 result" where
  "sumAndInvert8 sb startInclusive endInclusive =
     (if endInclusive < startInclusive then Inl ChecksumEndBeforeStart
      else case sumAndInvert8_loop sb startInclusive endInclusive 0 of
             Inl e \<Rightarrow> Inl e
           | Inr sum32 \<Rightarrow> (let low = (ucast (sum32 AND 0xFF) :: u8) in Inr (NOT low)))"

definition ComputeMain :: "SaveBuffer \<Rightarrow> u8 result" where
  "ComputeMain sb = sumAndInvert8 sb MainChecksumStart MainChecksumEnd"

definition ValidateMain :: "SaveBuffer \<Rightarrow> bool result" where
  "ValidateMain sb =
     (case ComputeMain sb of Inl e \<Rightarrow> Inl e | Inr expected \<Rightarrow>
      case ReadU8 sb MainChecksumOff of Inl e \<Rightarrow> Inl e | Inr stored \<Rightarrow>
        Inr (expected = stored))"

definition FixMain :: "SaveBuffer \<Rightarrow> mutation" where
  "FixMain sb =
     (case ComputeMain sb of
        Inl e \<Rightarrow> (Some e, sb)
      | Inr c \<Rightarrow> WriteU8 sb MainChecksumOff c)"

definition ComputeBankAll :: "SaveBuffer \<Rightarrow> int \<Rightarrow> u8 result" where
  "ComputeBankAll sb bankIndex2or3 =
     (if bankIndex2or3 \<noteq> 2 \<and> bankIndex2or3 \<noteq> 3 then Inl BankIndexInvalid
      else (let start = (if bankIndex2or3 = 2 then Bank2Base else Bank3Base);
                checksumOff = (if bankIndex2or3 = 2 then Bank2AllChecksumOff
                               else Bank3AllChecksumOff)
            in sumAndInvert8 sb start (checksumOff - 1)))"

definition ValidateBankAll :: "SaveBuffer \<Rightarrow> int \<Rightarrow> bool result" where
  "ValidateBankAll sb bankIndex2or3 =
     (let checksumOff = (if bankIndex2or3 = 2 then Bank2AllChecksumOff else Bank3AllChecksumOff)
      in case ReadU8 sb checksumOff of Inl e \<Rightarrow> Inl e | Inr stored \<Rightarrow>
         case ComputeBankAll sb bankIndex2or3 of Inl e \<Rightarrow> Inl e | Inr expected \<Rightarrow>
           Inr (stored = expected))"

definition FixBankAll :: "SaveBuffer \<Rightarrow> int \<Rightarrow> mutation" where
  "FixBankAll sb bankIndex2or3 =
     (let checksumOff = (if bankIndex2or3 = 2 then Bank2AllChecksumOff else Bank3AllChecksumOff)
      in case ComputeBankAll sb bankIndex2or3 of
           Inl e \<Rightarrow> (Some e, sb)
         | Inr c \<Rightarrow> WriteU8 sb checksumOff c)"

definition ComputeBox :: "SaveBuffer \<Rightarrow> int \<Rightarrow> u8 result" where
  "ComputeBox sb boxIndex1to12 =
     (case BoxBaseOffsetByIndex1to12 boxIndex1to12 of
        Inl e \<Rightarrow> Inl e
      | Inr start \<Rightarrow> (let end = start + BoxBlockSize - 1 in sumAndInvert8 sb start end))"

definition ValidateBox :: "SaveBuffer \<Rightarrow> int \<Rightarrow> bool result" where
  "ValidateBox sb boxIndex1to12 =
     (case BankPerBoxChecksumsBaseOffsetForBoxIndex1to12 boxIndex1to12 of
        Inl e \<Rightarrow> Inl e
      | Inr tableBase \<Rightarrow>
         (let withinBank = (if boxIndex1to12 \<le> 6 then boxIndex1to12 - 1 else boxIndex1to12 - 7)
          in case ReadU8 sb (tableBase + word_of_int withinBank) of Inl e \<Rightarrow> Inl e | Inr stored \<Rightarrow>
             case ComputeBox sb boxIndex1to12 of Inl e \<Rightarrow> Inl e | Inr expected \<Rightarrow>
               Inr (stored = expected)))"

definition FixBox :: "SaveBuffer \<Rightarrow> int \<Rightarrow> mutation" where
  "FixBox sb boxIndex1to12 =
     (case BankPerBoxChecksumsBaseOffsetForBoxIndex1to12 boxIndex1to12 of
        Inl e \<Rightarrow> (Some e, sb)
      | Inr tableBase \<Rightarrow>
         (let withinBank = (if boxIndex1to12 \<le> 6 then boxIndex1to12 - 1 else boxIndex1to12 - 7)
          in case ComputeBox sb boxIndex1to12 of
               Inl e \<Rightarrow> (Some e, sb)
             | Inr c \<Rightarrow> WriteU8 sb (tableBase + word_of_int withinBank) c))"

section \<open>Hall of Fame\<close>

text \<open>
  \<open>Gen1SpeciesLookup::SpeciesName\<close> has 256 entries; the initialiser gives the first 191
  (0x00 to 0xBE) and the others are empty strings.
\<close>

definition SpeciesName :: "string list" where
  "SpeciesName =
   [
    ''INVALID'', ''RHYDON'', ''KANGASKHAN'', ''NIDORAN_M'', ''CLEFAIRY'', ''SPEAROW'',
    ''VOLTORB'', ''NIDOKING'', ''SLOWBRO'', ''IVYSAUR'', ''EXEGGUTOR'', ''LICKITUNG'',
    ''EXEGGCUTE'', ''GRIMER'', ''GENGAR'', ''NIDORAN_F'', ''NIDOQUEEN'', ''CUBONE'',
    ''RHYHORN'', ''LAPRAS'', ''ARCANINE'', ''MEW'', ''GYARADOS'', ''SHELLDER'',
    ''TENTACOOL'', ''GASTLY'', ''SCYTHER'', ''STARYU'', ''BLASTOISE'', ''PINSIR'',
    ''TANGELA'', ''MISSINGNO'', ''MISSINGNO'', ''GROWLITHE'', ''ONIX'', ''FEAROW'',
    ''PIDGEY'', ''SLOWPOKE'', ''KADABRA'', ''GRAVELER'', ''CHANSEY'', ''MACHOKE'',
    ''MR_MIME'', ''HITMONLEE'', ''HITMONCHAN'', ''ARBOK'', ''PARASECT'', ''PSYDUCK'',
    ''DROWZEE'', ''GOLEM'', ''MISSINGNO'', ''MAGMAR'', ''MISSINGNO'', ''ELECTABUZZ'',
    ''MAGNETON'', ''KOFFING'', ''MISSINGNO'', ''MANKEY'', ''SEEL'', ''DIGLETT'',
    ''TAUROS'', ''MISSINGNO'', ''MISSINGNO'', ''MISSINGNO'', ''FARFETCHD'', ''VENONAT'',
    ''DRAGONITE'', ''MISSINGNO'', ''MISSINGNO'', ''MISSINGNO'', ''DODUO'', ''POLIWAG'',
    ''JYNX'', ''MOLTRES'', ''ARTICUNO'', ''ZAPDOS'', ''DITTO'', ''MEOWTH'', ''KRABBY'',
    ''MISSINGNO'', ''MISSINGNO'', ''MISSINGNO'', ''VULPIX'', ''NINETALES'', ''PIKACHU'',
    ''RAICHU'', ''MISSINGNO'', ''MISSINGNO'', ''DRATINI'', ''DRAGONAIR'', ''KABUTO'',
    ''KABUTOPS'', ''HORSEA'', ''SEADRA'', ''MISSINGNO'', ''MISSINGNO'', ''SANDSHREW'',
    ''SANDSLASH'', ''OMANYTE'', ''OMASTAR'', ''JIGGLYPUFF'', ''WIGGLYTUFF'', ''EEVEE'',
    ''FLAREON'', ''JOLTEON'', ''VAPOREON'', ''MACHOP'', ''ZUBAT'', ''EKANS'', ''PARAS'',
    ''POLIWHIRL'', ''POLIWRATH'', ''WEEDLE'', ''KAKUNA'', ''BEEDRILL'', ''MISSINGNO'',
    ''DODRIO'', ''PRIMEAPE'', ''DUGTRIO'', ''VENOMOTH'', ''DEWGONG'', ''MISSINGNO'',
    ''MISSINGNO'', ''CATERPIE'', ''METAPOD'', ''BUTTERFREE'', ''MACHAMP'', ''MISSINGNO'',
    ''GOLDUCK'', ''HYPNO'', ''GOLBAT'', ''MEWTWO'', ''SNORLAX'', ''MAGIKARP'',
    ''MISSINGNO'', ''MISSINGNO'', ''MUK'', ''MISSINGNO'', ''KINGLER'', ''CLOYSTER'',
    ''MISSINGNO'', ''ELECTRODE'', ''CLEFABLE'', ''WEEZING'', ''PERSIAN'', ''MAROWAK'',
    ''MISSINGNO'', ''HAUNTER'', ''ABRA'', ''ALAKAZAM'', ''PIDGEOTTO'', ''PIDGEOT'',
    ''STARMIE'', ''BULBASAUR'', ''VENUSAUR'', ''TENTACRUEL'', ''MISSINGNO'', ''GOLDEEN'',
    ''SEAKING'', ''MISSINGNO'', ''MISSINGNO'', ''MISSINGNO'', ''MISSINGNO'', ''PONYTA'',
    ''RAPIDASH'', ''RATTATA'', ''RATICATE'', ''NIDORINO'', ''NIDORINA'', ''GEODUDE'',
    ''PORYGON'', ''AERODACTYL'', ''MISSINGNO'', ''MAGNEMITE'', ''MISSINGNO'',
    ''MISSINGNO'', ''CHARMANDER'', ''SQUIRTLE'', ''CHARMELEON'', ''WARTORTLE'',
    ''CHARIZARD'', ''MISSINGNO'', ''MISSINGNO'', ''MISSINGNO'', ''MISSINGNO'', ''ODDISH'',
    ''GLOOM'', ''VILEPLUME'', ''BELLSPROUT'', ''WEEPINBELL'', ''VICTREEBEL''
   ] @ replicate 65 []"

definition NameFromId :: "u8 \<Rightarrow> string" where
  "NameFromId speciesId =
     (let idx = unat speciesId
      in if idx \<ge> 256 then ''INVALID''
         else (let n = SpeciesName ! idx in if n = [] then ''INVALID'' else n))"

definition IsLikelyValidGen1SpeciesId :: "u8 \<Rightarrow> bool" where
  "IsLikelyValidGen1SpeciesId speciesId \<longleftrightarrow> speciesId \<ge> 1 \<and> speciesId \<le> 151"

text \<open>
  The range-for loop of \<open>NameLooksReasonable\<close>, carrying the counters \<open>q\<close> and
  \<open>nonSpace\<close>. The counters are C++ \<open>int\<close>s; they stay far from overflow on the names
  the scanner passes, which have at most 11 characters.
\<close>

fun NameLooksReasonable_loop :: "string \<Rightarrow> int \<Rightarrow> int \<Rightarrow> int \<times> int" where
  "NameLooksReasonable_loop [] q nonSpace = (q, nonSpace)"
| "NameLooksReasonable_loop (c # s) q nonSpace =
     NameLooksReasonable_loop s
       (if c = CHR ''?'' then q + 1 else q)
       (if c \<noteq> CHR '' '' then nonSpace + 1 else nonSpace)"

definition NameLooksReasonable :: "string \<Rightarrow> bool" where
  "NameLooksReasonable s =
     (if s = [] then False
      else (case NameLooksReasonable_loop s 0 0 of
              (q, nonSpace) \<Rightarrow>
                if nonSpace = 0 then False
                else q * 2 < int (length s)))"

text \<open>
  \<open>HallOfFamePokemon\<close> and \<open>HallOfFameEntry\<close>, with the fields that
  \<open>ReadOnlyData::GetHallOfFame\<close> assigns.
\<close>

record HallOfFamePokemon =
  speciesId :: u8
  speciesName :: string
  level :: u8
  name :: string

record HallOfFameEntry =
  entryIndex :: int
  team :: "HallOfFamePokemon list"

text \<open>
  The inner loop of \<open>GetHallOfFame\<close> over the slots \<open>j\<close> of the record at
  \<open>recordOff\<close>; \<open>tm\<close> is \<open>entry.team\<close>. A \<open>break\<close> returns the team, a
  \<open>continue\<close> goes on with \<open>j + 1\<close>.
\<close>

function HallOfFame_slots ::
  "SaveBuffer \<Rightarrow> size_t \<Rightarrow> nat \<Rightarrow> HallOfFamePokemon list \<Rightarrow> HallOfFamePokemon list result"
where
  "HallOfFame_slots sb recordOff j tm =
     (if j < HallOfFameMonsPerRecord then
        (let monOff = recordOff + word_of_nat j * HallOfFameMonEntrySize
         in case RequireRange sb monOff HallOfFameMonEntrySize of Some e \<Rightarrow> Inl e | None \<Rightarrow>
            case ReadU8 sb (monOff + 0x00) of Inl e \<Rightarrow> Inl e | Inr species \<Rightarrow>
            case ReadU8 sb (monOff + 0x01) of Inl e \<Rightarrow> Inl e | Inr lvl \<Rightarrow>
              if species = 0x00 \<or> species = 0xFF then Inr tm
              else if \<not> IsLikelyValidGen1SpeciesId species then
                (if j = 0 then Inr [] else HallOfFame_slots sb recordOff (j + 1) tm)
              else if lvl < 1 \<or> lvl > 100 then
                (if j = 0 then Inr [] else HallOfFame_slots sb recordOff (j + 1) tm)
              else
                (case DecodeName sb (monOff + 0x02) 0x0B of Inl e \<Rightarrow> Inl e | Inr nm \<Rightarrow>
                   (let mon = \<lparr>speciesId = species, speciesName = NameFromId species,
                                level = lvl, name = nm\<rparr>
                    in if \<not> NameLooksReasonable nm then
                         (if j = 0 then Inr [] else HallOfFame_slots sb recordOff (j + 1) tm)
                       else HallOfFame_slots sb recordOff (j + 1) (tm @ [mon]))))
      else Inr tm)"
  by pat_completeness auto
termination
  by (relation "measure (\<lambda>(sb, recordOff, j, tm). HallOfFameMonsPerRecord - j)") auto

text \<open>
  The outer loop of \<open>GetHallOfFame\<close> over the records \<open>i\<close>, with the vector \<open>valid\<close>.
\<close>

function HallOfFame_records ::
  "SaveBuffer \<Rightarrow> nat \<Rightarrow> HallOfFameEntry list \<Rightarrow> HallOfFameEntry list result"
where
  "HallOfFame_records sb i valid =
     (if i < HallOfFameMaxRecords then
        (let recordOff = HallOfFameOff + word_of_nat i * HallOfFameRecordSize
         in case RequireRange sb recordOff HallOfFameRecordSize of Some e \<Rightarrow> Inl e | None \<Rightarrow>
            case HallOfFame_slots sb recordOff 0 [] of Inl e \<Rightarrow> Inl e | Inr tm \<Rightarrow>
              (let entry = \<lparr>entryIndex = int i + 1, team = tm\<rparr>
               in HallOfFame_records sb (i + 1) (if tm \<noteq> [] then valid @ [entry] else valid)))
      else Inr valid)"
  by pat_completeness auto
termination
  by (relation "measure (\<lambda>(sb, i, valid). HallOfFameMaxRecords - i)") auto

text \<open>The loop \<open>for (i = 0; i < valid.size(); ++i) valid[i].entryIndex = i + 1\<close>.\<close>

function renumber_loop :: "HallOfFameEntry list \<Rightarrow> nat \<Rightarrow> HallOfFameEntry list" where
  "renumber_loop valid i =
     (if i < length valid
      then renumber_loop (valid[i := (valid ! i)\<lparr>entryIndex := int (i + 1)\<rparr>]) (i + 1)
      else valid)"
  by pat_completeness auto
termination
  by (relation "measure (\<lambda>(valid, i). length valid - i)") auto

text \<open>
  The loop from \<open>start\<close> that numbers \<open>valid[i]\<close> with \<open>out.size() + 1\<close> and moves it to
  the end of \<open>out\<close>.
\<close>

function newest_loop ::
  "HallOfFameEntry list \<Rightarrow> nat \<Rightarrow> HallOfFameEntry list \<Rightarrow> HallOfFameEntry list"
where
  "newest_loop valid i out =
     (if i < length valid
      then newest_loop valid (i + 1) (out @ [(valid ! i)\<lparr>entryIndex := int (length out + 1)\<rparr>])
      else out)"
  by pat_completeness auto
termination
  by (relation "measure (\<lambda>(valid, i, out). length valid - i)") auto

text \<open>\<open>std::clamp(v, lo, hi)\<close>.\<close>

definition clamp :: "int \<Rightarrow> int \<Rightarrow> int \<Rightarrow> int" where
  "clamp v lo hi = (if v < lo then lo else if hi < v then hi else v)"

text \<open>
  The end of \<open>GetHallOfFame\<close>, after the scan: what is returned for the hint
  \<open>countHint\<close> and the scanned records \<open>valid\<close>.
\<close>

definition HallOfFame_window :: "int \<Rightarrow> HallOfFameEntry list \<Rightarrow> HallOfFameEntry list" where
  "HallOfFame_window countHint valid =
     (if countHint = 0 then []
      else if int (length valid) \<le> countHint then renumber_loop valid 0
      else (let start = length valid - nat countHint
            in newest_loop valid start []))"

definition GetHallOfFame :: "SaveBuffer \<Rightarrow> HallOfFameEntry list result" where
  "GetHallOfFame sb =
     (case ReadU8 sb HallOfFameRecordCountOff of Inl e \<Rightarrow> Inl e | Inr raw \<Rightarrow>
        (let rawCountHint = uint raw;
             countHint = clamp rawCountHint 0 (int HallOfFameMaxRecords)
         in case RequireRange sb HallOfFameOff HallOfFameLen of Some e \<Rightarrow> Inl e | None \<Rightarrow>
            case HallOfFame_records sb 0 [] of Inl e \<Rightarrow> Inl e | Inr valid \<Rightarrow>
              Inr (HallOfFame_window countHint valid)))"

section \<open>Names of the text round trip\<close>

text \<open>
  The vocabulary of the round-trip property of the text codec: the characters a name is
  drawn from (upper-case letters, digits, the space, and lower-case letters, which the
  encoder turns into upper case) and the case-normalised form of a character.
\<close>

definition is_upper :: "char \<Rightarrow> bool" where
  "is_upper c \<longleftrightarrow> (of_char CHR ''A'' :: nat) \<le> of_char c \<and> (of_char c :: nat) \<le> of_char CHR ''Z''"

definition is_lower :: "char \<Rightarrow> bool" where
  "is_lower c \<longleftrightarrow> (of_char CHR ''a'' :: nat) \<le> of_char c \<and> (of_char c :: nat) \<le> of_char CHR ''z''"

definition is_digit :: "char \<Rightarrow> bool" where
  "is_digit c \<longleftrightarrow> (of_char CHR ''0'' :: nat) \<le> of_char c \<and> (of_char c :: nat) \<le> of_char CHR ''9''"

definition name_char :: "char \<Rightarrow> bool" where
  "name_char c \<longleftrightarrow> is_upper c \<or> is_digit c \<or> c = CHR '' '' \<or> is_lower c"

definition case_normalized :: "char \<Rightarrow> char" where
  "case_normalized c = (if is_lower c then char_of ((of_char c :: nat) - 32) else c)"

text \<open>The bytes that \<open>EncodeName\<close> stores, for a field of \<open>len\<close> bytes.\<close>

definition encoded_field :: "nat \<Rightarrow> string \<Rightarrow> Bytes" where
  "encoded_field len nm =
     map AsciiToByte (take (len - 1) nm) @ replicate (len - min (length nm) (len - 1)) 0x50"

section \<open>A blank save\<close>

text \<open>The buffer of the expected size with every byte 0.\<close>

definition blank_save :: SaveBuffer where
  "blank_save = replicate ExpectedSize 0"

section \<open>The scanner, as specified\<close>

text \<open>
  What the scanner sees in slot \<open>j\<close> of record \<open>i\<close>: the end-of-team marker (species
  byte 0 or 0xFF), a member that passes the species, level and name checks, or a slot
  that fails one of them. The slot starts at \<open>slot_base i j\<close>; its name field is the 11
  bytes from offset 2, decoded up to the first terminator byte.
\<close>

datatype slot = EndOfTeam | Implausible | Member HallOfFamePokemon

definition slot_base :: "nat \<Rightarrow> nat \<Rightarrow> nat" where
  "slot_base i j = 0x598 + i * 0x60 + j * 0x10"

definition decoded_field :: "Bytes \<Rightarrow> string" where
  "decoded_field bytes = map ByteToAscii (takeWhile (\<lambda>b. b \<noteq> 0x50) bytes)"

definition slot_at :: "SaveBuffer \<Rightarrow> nat \<Rightarrow> nat \<Rightarrow> slot" where
  "slot_at sb i j =
     (let species = sb ! slot_base i j;
          lvl = sb ! (slot_base i j + 1);
          nm = decoded_field (map (\<lambda>k. sb ! k) [slot_base i j + 2 ..< slot_base i j + 13])
      in if species = 0 \<or> species = 0xFF then EndOfTeam
         else if 1 \<le> species \<and> species \<le> 151 \<and> 1 \<le> lvl \<and> lvl \<le> 100
                 \<and> NameLooksReasonable nm
           then Member \<lparr>speciesId = species, speciesName = NameFromId species,
                        level = lvl, name = nm\<rparr>
         else Implausible)"

text \<open>
  The members a record contributes, reading its slots in order from slot \<open>j\<close>: the
  end-of-team marker stops the record; a failing slot 0 abandons the record with no
  member; a failing later slot is skipped; a valid slot adds its member.
\<close>

fun members_from :: "nat \<Rightarrow> slot list \<Rightarrow> HallOfFamePokemon list" where
  "members_from j [] = []"
| "members_from j (EndOfTeam # slots) = []"
| "members_from j (Implausible # slots) = (if j = 0 then [] else members_from (Suc j) slots)"
| "members_from j (Member m # slots) = m # members_from (Suc j) slots"

definition record_team :: "SaveBuffer \<Rightarrow> nat \<Rightarrow> HallOfFamePokemon list" where
  "record_team sb i = members_from 0 (map (slot_at sb i) [0 ..< 6])"

text \<open>
  The valid list: the records, in order, that have at least one member, each with its
  1-based position among the 50 records as index.
\<close>

definition scanned_records :: "SaveBuffer \<Rightarrow> HallOfFameEntry list" where
  "scanned_records sb =
     map (\<lambda>i. \<lparr>entryIndex = int i + 1, team = record_team sb i\<rparr>)
       (filter (\<lambda>i. record_team sb i \<noteq> []) [0 ..< 50])"

text \<open>
  The windowing of the specification: entries numbered 1, 2, ... in order, and the result
  for the clamped hint \<open>h\<close> and the valid list \<open>V\<close>.
\<close>

definition renumbered :: "HallOfFameEntry list \<Rightarrow> HallOfFameEntry list" where
  "renumbered es = map (\<lambda>(k, e). e\<lparr>entryIndex := int k + 1\<rparr>) (enumerate 0 es)"

definition windowed :: "nat \<Rightarrow> HallOfFameEntry list \<Rightarrow> HallOfFameEntry list" where
  "windowed h V =
     (if h = 0 then []
      else if length V \<le> h then renumbered V
      else renumbered (drop (length V - h) V))"

section \<open>A sample save\<close>

text \<open>
  A sample save of the expected size. Record 1 has a valid slot 0, a slot 1 with level 0,
  a valid slot 2 and the end marker 0xFF in slot 3; record 2 has species 200 in slot 0;
  records 3 and 4 have one member each; everything else is 0, except the hint byte.
\<close>

definition hof_slot :: "u8 \<Rightarrow> u8 \<Rightarrow> u8 \<Rightarrow> Bytes" where
  "hof_slot species lvl c = [species, lvl, c, 0x50] @ replicate 12 0"

definition sample_save :: "u8 \<Rightarrow> SaveBuffer" where
  "sample_save hint =
     replicate 0x598 0
     @ (hof_slot 1 7 0x80 @ hof_slot 2 0 0x81 @ hof_slot 3 9 0x82 @ hof_slot 0xFF 0 0
        @ replicate 32 0)
     @ (hof_slot 200 5 0x80 @ hof_slot 4 5 0x81 @ replicate 64 0)
     @ (hof_slot 2 8 0x83 @ replicate 80 0)
     @ (hof_slot 3 6 0x84 @ replicate 80 0)
     @ replicate (0x284E - 0x598 - 4 * 0x60) 0
     @ [hint]
     @ replicate (0x8000 - 0x284F) 0"

section \<open>Range checks\<close>

text \<open>
  The equations of the loops are recursive without a pattern to stop them; they are
  unfolded by hand.
\<close>

declare EncodeName_loop.simps [simp del]
declare sumAndInvert8_loop.simps [simp del]
declare HallOfFame_slots.simps [simp del]
declare HallOfFame_records.simps [simp del]
declare renumber_loop.simps [simp del]
declare newest_loop.simps [simp del]

lemma length_blank_save: "length blank_save = 32768"
  by (simp add: blank_save_def ExpectedSize_def)

lemma blank_save_nth: "k < 32768 \<Longrightarrow> blank_save ! k = 0"
  by (simp add: blank_save_def ExpectedSize_def)

lemma RequireRange_zero: "RequireRange bytes off 0 = None"
  by (simp add: RequireRange_def)

lemma RequireRange_beyond:
  assumes "length bytes < unat off + unat len" and "len \<noteq> 0"
  shows "RequireRange bytes off len = Some OffsetOutOfRange
       \<or> RequireRange bytes off len = Some RangeOutOfRange"
proof (cases "unat off > length bytes")
  case True
  with assms(2) show ?thesis by (simp add: RequireRange_def Size_def)
next
  case False
  show ?thesis
  proof (cases "off + len < off")
    case True
    with assms(2) show ?thesis by (simp add: RequireRange_def Size_def Let_def)
  next
    case nowrap: False
    then have "off \<le> off + len" by simp
    then have "unat (off + len) = unat off + unat len"
      by (simp add: unat_plus_simple)
    with assms show ?thesis by (simp add: RequireRange_def Size_def Let_def)
  qed
qed

lemma RequireRange_beyond_kind:
  assumes "length bytes < unat off + unat len" and "len \<noteq> 0"
  shows "\<exists>e. RequireRange bytes off len = Some e \<and> kind_of e = OutOfRange"
  using RequireRange_beyond [OF assms] by auto

lemma RequireRange_within:
  assumes "unat off + unat len \<le> length bytes" and "length bytes < 2 ^ 64"
  shows "RequireRange bytes off len = None"
proof -
  from assms have lt: "unat off + unat len < 2 ^ 64" by simp
  then have sum: "unat (off + len) = unat off + unat len"
    by (simp add: unat_add_lem [THEN iffD1])
  then have "\<not> off + len < off"
    by (simp add: word_less_nat_alt)
  with assms sum show ?thesis
    by (simp add: RequireRange_def Size_def Let_def)
qed

lemma fails_with_RequireRange:
  assumes "RequireRange bytes off len = Some OffsetOutOfRange
         \<or> RequireRange bytes off len = Some RangeOutOfRange"
  shows "fails_with (case RequireRange bytes off len of Some e \<Rightarrow> Inl e | None \<Rightarrow> Inr x)
           OutOfRange"
  using assms by (auto simp: fails_with_def)

lemma throws_RequireRange:
  assumes "RequireRange bytes off len = Some OffsetOutOfRange
         \<or> RequireRange bytes off len = Some RangeOutOfRange"
  shows "throws (case RequireRange bytes off len of
                   Some e \<Rightarrow> (Some e, bytes) | None \<Rightarrow> (None, y)) OutOfRange"
    and "snd (case RequireRange bytes off len of
                Some e \<Rightarrow> (Some e, bytes) | None \<Rightarrow> (None, y)) = bytes"
  using assms by (auto simp: throws_def)

section \<open>Accesses beyond the end of the buffer\<close>

text \<open>
  Claim C4, as the code has it. Whenever the accessed range ends beyond the size of the
  buffer, every fixed-width accessor (ReadU8, ReadU16LE, ReadU24BE, WriteU8, WriteU16LE,
  WriteU24BE, GetBit, SetBit) throws an exception of the OutOfRange class, and the buffer a
  failed write leaves behind is the buffer it was given. Slice does the same for every
  length other than 0; a slice of length 0 is not range-checked at all.
\<close>

theorem accessors_fail_beyond_size:
  "(length bytes < unat off + 1 \<longrightarrow>
      fails_with (ReadU8 bytes off) OutOfRange \<and>
      throws (WriteU8 bytes off v8) OutOfRange \<and> snd (WriteU8 bytes off v8) = bytes \<and>
      fails_with (GetBit bytes off bitIndex) OutOfRange \<and>
      throws (SetBit bytes off bitIndex b) OutOfRange \<and>
      snd (SetBit bytes off bitIndex b) = bytes) \<and>
   (length bytes < unat off + 2 \<longrightarrow>
      fails_with (ReadU16LE bytes off) OutOfRange \<and>
      throws (WriteU16LE bytes off v16) OutOfRange \<and> snd (WriteU16LE bytes off v16) = bytes) \<and>
   (length bytes < unat off + 3 \<longrightarrow>
      fails_with (ReadU24BE bytes off) OutOfRange \<and>
      throws (WriteU24BE bytes off v32) OutOfRange \<and> snd (WriteU24BE bytes off v32) = bytes) \<and>
   (length bytes < unat off + unat len \<and> len \<noteq> 0 \<longrightarrow>
      fails_with (Slice bytes off len) OutOfRange)"
proof (intro conjI impI)
  assume "length bytes < unat off + 1"
  then have r: "RequireRange bytes off 1 = Some OffsetOutOfRange
              \<or> RequireRange bytes off 1 = Some RangeOutOfRange"
    using RequireRange_beyond [of bytes off 1] by simp
  show "fails_with (ReadU8 bytes off) OutOfRange"
    unfolding ReadU8_def by (rule fails_with_RequireRange [OF r])
  show "throws (WriteU8 bytes off v8) OutOfRange"
    unfolding WriteU8_def by (rule throws_RequireRange(1) [OF r])
  show "snd (WriteU8 bytes off v8) = bytes"
    unfolding WriteU8_def by (rule throws_RequireRange(2) [OF r])
  show "fails_with (GetBit bytes off bitIndex) OutOfRange"
    using r by (auto simp: GetBit_def fails_with_def)
  show "throws (SetBit bytes off bitIndex b) OutOfRange"
    using r by (auto simp: SetBit_def throws_def)
  show "snd (SetBit bytes off bitIndex b) = bytes"
    using r by (auto simp: SetBit_def)
next
  assume "length bytes < unat off + 2"
  then have r: "RequireRange bytes off 2 = Some OffsetOutOfRange
              \<or> RequireRange bytes off 2 = Some RangeOutOfRange"
    using RequireRange_beyond [of bytes off 2] by simp
  show "fails_with (ReadU16LE bytes off) OutOfRange"
    unfolding ReadU16LE_def by (rule fails_with_RequireRange [OF r])
  show "throws (WriteU16LE bytes off v16) OutOfRange"
    unfolding WriteU16LE_def by (rule throws_RequireRange(1) [OF r])
  show "snd (WriteU16LE bytes off v16) = bytes"
    unfolding WriteU16LE_def by (rule throws_RequireRange(2) [OF r])
next
  assume "length bytes < unat off + 3"
  then have r: "RequireRange bytes off 3 = Some OffsetOutOfRange
              \<or> RequireRange bytes off 3 = Some RangeOutOfRange"
    using RequireRange_beyond [of bytes off 3] by simp
  show "fails_with (ReadU24BE bytes off) OutOfRange"
    unfolding ReadU24BE_def by (rule fails_with_RequireRange [OF r])
  show "throws (WriteU24BE bytes off v32) OutOfRange"
    unfolding WriteU24BE_def by (rule throws_RequireRange(1) [OF r])
  show "snd (WriteU24BE bytes off v32) = bytes"
    unfolding WriteU24BE_def by (rule throws_RequireRange(2) [OF r])
next
  assume "length bytes < unat off + unat len \<and> len \<noteq> 0"
  then have r: "RequireRange bytes off len = Some OffsetOutOfRange
              \<or> RequireRange bytes off len = Some RangeOutOfRange"
    using RequireRange_beyond [of bytes off len] by simp
  show "fails_with (Slice bytes off len) OutOfRange"
    unfolding Slice_def by (rule fails_with_RequireRange [OF r])
qed

text \<open>
  The theorem at the two-byte buffer \<open>[1, 2]\<close>: one-byte accesses at offset 2, two-byte
  accesses at offset 1, three-byte accesses at offset 0 and a slice of 2 bytes at offset 1.
\<close>

theorem accessors_fail_beyond_size_witness:
  "length [1, 2 :: u8] < unat (2 :: size_t) + 1 \<and>
   fails_with (ReadU8 [1, 2] 2) OutOfRange \<and>
   throws (WriteU8 [1, 2] 2 7) OutOfRange \<and> snd (WriteU8 [1, 2] 2 7) = [1, 2] \<and>
   fails_with (GetBit [1, 2] 2 0) OutOfRange \<and>
   throws (SetBit [1, 2] 2 0 True) OutOfRange \<and> snd (SetBit [1, 2] 2 0 True) = [1, 2] \<and>
   length [1, 2 :: u8] < unat (1 :: size_t) + 2 \<and>
   fails_with (ReadU16LE [1, 2] 1) OutOfRange \<and>
   throws (WriteU16LE [1, 2] 1 7) OutOfRange \<and> snd (WriteU16LE [1, 2] 1 7) = [1, 2] \<and>
   length [1, 2 :: u8] < unat (0 :: size_t) + 3 \<and>
   fails_with (ReadU24BE [1, 2] 0) OutOfRange \<and>
   throws (WriteU24BE [1, 2] 0 7) OutOfRange \<and> snd (WriteU24BE [1, 2] 0 7) = [1, 2] \<and>
   length [1, 2 :: u8] < unat (1 :: size_t) + unat (2 :: size_t) \<and> (2 :: size_t) \<noteq> 0 \<and>
   fails_with (Slice [1, 2] 1 2) OutOfRange"
  using accessors_fail_beyond_size [of "[1, 2]" 2 7 0 True 7 7 1]
    accessors_fail_beyond_size [of "[1, 2]" 1 7 0 True 7 7 2]
    accessors_fail_beyond_size [of "[1, 2]" 0 7 0 True 7 7 2]
  by simp

text \<open>
  Claim C4 as stated fails for Slice: on the empty buffer, offset 1 and length 0 give
  \<open>offset + length > size\<close>, and Slice returns the empty byte sequence.
\<close>

theorem slice_beyond_size_counterexample:
  "length ([] :: u8 list) < unat (1 :: size_t) + unat (0 :: size_t) \<and> Slice [] 1 0 = Inr []"
  by (simp add: Slice_def RequireRange_def)

section \<open>Accesses of length zero\<close>

text \<open>
  Claim C10. For every buffer and every offset, also an offset greater than the size of
  the buffer, the range check with length 0 succeeds and \<open>Slice\<close> with length 0 returns the
  empty byte sequence without an error.
\<close>

theorem zero_length_never_fails:
  "RequireRange bytes off 0 = None \<and> Slice bytes off 0 = Inr []"
  by (simp add: Slice_def RequireRange_def)

lemma int_1_6: "1 \<le> i \<Longrightarrow> i \<le> 6 \<Longrightarrow> i \<in> {1, 2, 3, 4, 5, 6 :: int}"
  by auto

lemma int_7_12: "7 \<le> i \<Longrightarrow> i \<le> 12 \<Longrightarrow> i \<in> {7, 8, 9, 10, 11, 12 :: int}"
  by auto

section \<open>Box offsets\<close>

text \<open>
  Claim C9. \<open>BoxBaseOffsetByIndex1to12\<close> maps an index \<open>i\<close> in 1..6 to
  \<open>Box1Off + (i - 1) * BoxBlockSize\<close> and an index in 7..12 to
  \<open>Box7Off + (i - 7) * BoxBlockSize\<close>, without wrap-around; index 1 gives the box base of
  the first bank and index 7 that of the second. For every index outside 1..12, 0 and 13
  among them, it fails with an error of the InvalidIndex class. The checksum routines
  that call it fail in the same way on any buffer and leave it untouched: the index is
  rejected before the buffer is accessed.
\<close>

theorem BoxBaseOffsetByIndex1to12_formula:
  "(1 \<le> i \<and> i \<le> 6 \<longrightarrow>
      BoxBaseOffsetByIndex1to12 i = Inr (Box1Off + word_of_int (i - 1) * BoxBlockSize) \<and>
      unat (Box1Off + word_of_int (i - 1) * BoxBlockSize)
        = unat Box1Off + nat (i - 1) * unat BoxBlockSize) \<and>
   (7 \<le> i \<and> i \<le> 12 \<longrightarrow>
      BoxBaseOffsetByIndex1to12 i = Inr (Box7Off + word_of_int (i - 7) * BoxBlockSize) \<and>
      unat (Box7Off + word_of_int (i - 7) * BoxBlockSize)
        = unat Box7Off + nat (i - 7) * unat BoxBlockSize) \<and>
   (i < 1 \<or> 12 < i \<longrightarrow>
      fails_with (BoxBaseOffsetByIndex1to12 i) InvalidIndex \<and>
      fails_with (ComputeBox sb i) InvalidIndex \<and>
      fails_with (ValidateBox sb i) InvalidIndex \<and>
      throws (FixBox sb i) InvalidIndex \<and> snd (FixBox sb i) = sb) \<and>
   BoxBaseOffsetByIndex1to12 1 = Inr Box1Off \<and>
   BoxBaseOffsetByIndex1to12 7 = Inr Box7Off \<and>
   fails_with (BoxBaseOffsetByIndex1to12 0) InvalidIndex \<and>
   fails_with (BoxBaseOffsetByIndex1to12 13) InvalidIndex"
proof (intro conjI impI)
  assume h: "1 \<le> i \<and> i \<le> 6"
  then show "BoxBaseOffsetByIndex1to12 i = Inr (Box1Off + word_of_int (i - 1) * BoxBlockSize)"
    by (simp add: BoxBaseOffsetByIndex1to12_def)
  from h have "i \<in> {1, 2, 3, 4, 5, 6}" by (intro int_1_6) simp_all
  then show "unat (Box1Off + word_of_int (i - 1) * BoxBlockSize)
        = unat Box1Off + nat (i - 1) * unat BoxBlockSize"
    by (auto simp: Box1Off_def BoxBlockSize_def)
next
  assume h: "7 \<le> i \<and> i \<le> 12"
  then show "BoxBaseOffsetByIndex1to12 i = Inr (Box7Off + word_of_int (i - 7) * BoxBlockSize)"
    by (simp add: BoxBaseOffsetByIndex1to12_def)
  from h have "i \<in> {7, 8, 9, 10, 11, 12}" by (intro int_7_12) simp_all
  then show "unat (Box7Off + word_of_int (i - 7) * BoxBlockSize)
        = unat Box7Off + nat (i - 7) * unat BoxBlockSize"
    by (auto simp: Box7Off_def BoxBlockSize_def)
next
  assume h: "i < 1 \<or> 12 < i"
  then show "fails_with (BoxBaseOffsetByIndex1to12 i) InvalidIndex"
    by (auto simp: BoxBaseOffsetByIndex1to12_def fails_with_def)
  from h show "fails_with (ComputeBox sb i) InvalidIndex"
    by (auto simp: ComputeBox_def BoxBaseOffsetByIndex1to12_def fails_with_def)
  from h show "fails_with (ValidateBox sb i) InvalidIndex"
    by (auto simp: ValidateBox_def BankPerBoxChecksumsBaseOffsetForBoxIndex1to12_def fails_with_def)
  from h show "throws (FixBox sb i) InvalidIndex"
    by (auto simp: FixBox_def BankPerBoxChecksumsBaseOffsetForBoxIndex1to12_def throws_def)
  from h show "snd (FixBox sb i) = sb"
    by (auto simp: FixBox_def BankPerBoxChecksumsBaseOffsetForBoxIndex1to12_def)
qed (simp_all add: BoxBaseOffsetByIndex1to12_def fails_with_def)

text \<open>The theorem at the indices 3, 12 and -1, the latter on the empty buffer.\<close>

theorem BoxBaseOffsetByIndex1to12_formula_witness:
  "(1 :: int) \<le> 3 \<and> (3 :: int) \<le> 6 \<and>
   BoxBaseOffsetByIndex1to12 3 = Inr 0x48C4 \<and>
   (7 :: int) \<le> 12 \<and> (12 :: int) \<le> 12 \<and>
   BoxBaseOffsetByIndex1to12 12 = Inr 0x75EA \<and>
   ((-1 :: int) < 1 \<or> (12 :: int) < -1) \<and>
   fails_with (BoxBaseOffsetByIndex1to12 (-1)) InvalidIndex \<and>
   fails_with (ComputeBox [] (-1)) InvalidIndex \<and>
   fails_with (ValidateBox [] (-1)) InvalidIndex \<and>
   throws (FixBox [] (-1)) InvalidIndex \<and> snd (FixBox [] (-1)) = []"
  using BoxBaseOffsetByIndex1to12_formula [of 3 "[]"]
    BoxBaseOffsetByIndex1to12_formula [of 12 "[]"]
    BoxBaseOffsetByIndex1to12_formula [of "-1" "[]"]
  by (simp add: Box1Off_def Box7Off_def BoxBlockSize_def)

section \<open>In-range accesses\<close>

lemma RequireRange_None_iff:
  assumes "len \<noteq> 0"
  shows "RequireRange sb off len = None
     \<longleftrightarrow> unat off + unat len \<le> length sb \<and> unat off + unat len < 2 ^ 64"
proof
  assume ok: "RequireRange sb off len = None"
  with assms have a: "\<not> unat off > length sb" and b: "\<not> off + len < off"
    and c: "\<not> unat (off + len) > length sb"
    by (auto simp: RequireRange_def Size_def Let_def split: if_splits)
  from b have "off \<le> off + len" by simp
  then have s: "unat (off + len) = unat off + unat len"
    by (simp add: unat_plus_simple)
  moreover have "unat (off + len) < 2 ^ 64"
    using unsigned_less [of "off + len"] by simp
  ultimately show "unat off + unat len \<le> length sb \<and> unat off + unat len < 2 ^ 64"
    using c by simp
next
  assume h: "unat off + unat len \<le> length sb \<and> unat off + unat len < 2 ^ 64"
  then have s: "unat (off + len) = unat off + unat len"
    by (simp add: unat_add_lem [THEN iffD1])
  then have "\<not> off + len < off"
    by (simp add: word_less_nat_alt)
  with h s assms show "RequireRange sb off len = None"
    by (simp add: RequireRange_def Size_def Let_def)
qed

lemma unat_off_plus:
  assumes "unat (off :: size_t) + n < 2 ^ 64"
  shows "unat (off + of_nat n) = unat off + n"
proof -
  from assms have "n < 2 ^ 64" by simp
  then have "unat (of_nat n :: size_t) = n"
    by (simp add: unat_of_nat)
  with assms show ?thesis
    by (simp add: unat_add_lem [THEN iffD1])
qed

lemma ReadU8_ok:
  assumes "unat off < length sb" and "unat off + 1 < 2 ^ 64"
  shows "ReadU8 sb off = Inr (sb ! unat off)"
proof -
  have "RequireRange sb off 1 = None"
    using assms by (simp add: RequireRange_None_iff)
  then show ?thesis by (simp add: ReadU8_def)
qed

lemma WriteU8_ok:
  assumes "unat off < length sb" and "unat off + 1 < 2 ^ 64"
  shows "WriteU8 sb off v = (None, sb[unat off := v])"
proof -
  have "RequireRange sb off 1 = None"
    using assms by (simp add: RequireRange_None_iff)
  then show ?thesis by (simp add: WriteU8_def)
qed

section \<open>Packed-decimal codec\<close>

lemma digit_cases: "d < 10 \<Longrightarrow> d \<in> {0, 1, 2, 3, 4, 5, 6, 7, 8, 9 :: u32}"
proof -
  assume "d < 10"
  then have "unat d < 10" by (simp add: word_less_nat_alt)
  then have "unat d \<in> {0, 1, 2, 3, 4, 5, 6, 7, 8, 9}" by auto
  then have "word_of_nat (unat d) \<in> (word_of_nat ` {0, 1, 2, 3, 4, 5, 6, 7, 8, 9} :: u32 set)"
    by (rule imageI)
  then show ?thesis by simp
qed

lemma bcd_byte_high:
  assumes "hi < 10" and "lo < 10"
  shows "bcdDigit (drop_bit 4 (ucast (push_bit 4 hi OR lo) :: u8) AND 0xF) = hi"
  using digit_cases [OF assms(1)] digit_cases [OF assms(2)]
  by (auto simp: bcdDigit_def)

lemma bcd_byte_low:
  assumes "hi < 10" and "lo < 10"
  shows "bcdDigit ((ucast (push_bit 4 hi OR lo) :: u8) AND 0xF) = lo"
  using digit_cases [OF assms(1)] digit_cases [OF assms(2)]
  by (auto simp: bcdDigit_def)

lemma mod10_less: "(x :: u32) mod 10 < 10"
  by (simp add: word_mod_less_divisor)

lemma div10_step: "(n :: nat) div k = n div (k * 10) * 10 + (n div k) mod 10"
proof -
  have "n div (k * 10) = (n div k) div 10"
    by (simp add: div_mult2_eq)
  then show ?thesis by simp
qed

lemma digits6_nat:
  assumes "n \<le> 999999"
  shows "(n div 100000) mod 10 * 100000 + (n div 10000) mod 10 * 10000
       + (n div 1000) mod 10 * 1000 + (n div 100) mod 10 * 100
       + (n div 10) mod 10 * 10 + n mod 10 = (n :: nat)"
proof -
  have e0: "n = n div 10 * 10 + n mod 10" by simp
  have e1: "n div 10 = n div 100 * 10 + (n div 10) mod 10"
    using div10_step [of n 10] by simp
  have e2: "n div 100 = n div 1000 * 10 + (n div 100) mod 10"
    using div10_step [of n 100] by simp
  have e3: "n div 1000 = n div 10000 * 10 + (n div 1000) mod 10"
    using div10_step [of n 1000] by simp
  have e4: "n div 10000 = n div 100000 * 10 + (n div 10000) mod 10"
    using div10_step [of n 10000] by simp
  have "n div 100000 < 10" using assms by simp
  then have e5: "(n div 100000) mod 10 = n div 100000" by simp
  show ?thesis
    using e0 e1 e2 e3 e4 e5 by linarith
qed

lemma digits4_nat:
  assumes "n \<le> 9999"
  shows "(n div 1000) mod 10 * 1000 + (n div 100) mod 10 * 100
       + (n div 10) mod 10 * 10 + n mod 10 = (n :: nat)"
proof -
  have e0: "n = n div 10 * 10 + n mod 10" by simp
  have e1: "n div 10 = n div 100 * 10 + (n div 10) mod 10"
    using div10_step [of n 10] by simp
  have e2: "n div 100 = n div 1000 * 10 + (n div 100) mod 10"
    using div10_step [of n 100] by simp
  have "n div 1000 < 10" using assms by simp
  then have e3: "(n div 1000) mod 10 = n div 1000" by simp
  show ?thesis
    using e0 e1 e2 e3 by linarith
qed

lemma word_digit:
  "(val div k) mod 10 = (word_of_nat ((unat val div unat k) mod 10) :: u32)"
proof -
  have "unat ((val div k) mod 10) = (unat val div unat k) mod 10"
    by (simp add: unat_div unat_mod)
  then have "word_of_nat (unat ((val div k) mod 10)) = (word_of_nat ((unat val div unat k) mod 10) :: u32)"
    by simp
  then show ?thesis by simp
qed

lemma word_digit0:
  "val mod 10 = (word_of_nat (unat val mod 10) :: u32)"
  using word_digit [of val 1] by simp

lemma unat_numeral_u32:
  "unat (10 :: u32) = 10" "unat (100 :: u32) = 100" "unat (1000 :: u32) = 1000"
  "unat (10000 :: u32) = 10000" "unat (100000 :: u32) = 100000"
  by simp_all

lemma digits6_word:
  assumes "(val :: u32) \<le> 999999"
  shows "(val div 100000) mod 10 * 100000 + (val div 10000) mod 10 * 10000
       + (val div 1000) mod 10 * 1000 + (val div 100) mod 10 * 100
       + (val div 10) mod 10 * 10 + val mod 10 = val"
proof -
  from assms have n: "unat val \<le> 999999"
    by (simp add: word_le_nat_alt)
  have "(val div 100000) mod 10 * 100000 + (val div 10000) mod 10 * 10000
       + (val div 1000) mod 10 * 1000 + (val div 100) mod 10 * 100
       + (val div 10) mod 10 * 10 + val mod 10
      = word_of_nat ((unat val div 100000) mod 10 * 100000 + (unat val div 10000) mod 10 * 10000
       + (unat val div 1000) mod 10 * 1000 + (unat val div 100) mod 10 * 100
       + (unat val div 10) mod 10 * 10 + unat val mod 10)"
    using word_digit [of val 100000] word_digit [of val 10000] word_digit [of val 1000]
      word_digit [of val 100] word_digit [of val 10] word_digit0 [of val]
    by (simp only: unat_numeral_u32 of_nat_add of_nat_mult of_nat_numeral)
  also have "\<dots> = word_of_nat (unat val)"
    by (simp only: digits6_nat [OF n])
  finally show ?thesis by simp
qed

lemma digits4_word:
  assumes "(v :: u32) \<le> 9999"
  shows "(v div 1000) mod 10 * 1000 + (v div 100) mod 10 * 100
       + (v div 10) mod 10 * 10 + v mod 10 = v"
proof -
  from assms have n: "unat v \<le> 9999"
    by (simp add: word_le_nat_alt)
  have "(v div 1000) mod 10 * 1000 + (v div 100) mod 10 * 100
       + (v div 10) mod 10 * 10 + v mod 10
      = word_of_nat ((unat v div 1000) mod 10 * 1000 + (unat v div 100) mod 10 * 100
       + (unat v div 10) mod 10 * 10 + unat v mod 10)"
    using word_digit [of v 1000] word_digit [of v 100] word_digit [of v 10] word_digit0 [of v]
    by (simp only: unat_numeral_u32 of_nat_add of_nat_mult of_nat_numeral)
  also have "\<dots> = word_of_nat (unat v)"
    by (simp only: digits4_nat [OF n])
  finally show ?thesis by simp
qed

lemma RequireRange_3:
  assumes "RequireRange sb off 3 = None"
  shows "unat off + 3 \<le> length sb" and "unat off + 3 < 2 ^ 64"
    and "unat (off + 1) = unat off + 1" and "unat (off + 2) = unat off + 2"
proof -
  from assms show a: "unat off + 3 \<le> length sb" and b: "unat off + 3 < 2 ^ 64"
    by (simp_all add: RequireRange_None_iff)
  from b show "unat (off + 1) = unat off + 1"
    using unat_off_plus [of off 1] by simp
  from b show "unat (off + 2) = unat off + 2"
    using unat_off_plus [of off 2] by simp
qed

lemma RequireRange_2:
  assumes "RequireRange sb off 2 = None"
  shows "unat off + 2 \<le> length sb" and "unat off + 2 < 2 ^ 64"
    and "unat (off + 1) = unat off + 1"
proof -
  from assms show a: "unat off + 2 \<le> length sb" and b: "unat off + 2 < 2 ^ 64"
    by (simp_all add: RequireRange_None_iff)
  from b show "unat (off + 1) = unat off + 1"
    using unat_off_plus [of off 1] by simp
qed

lemma WriteBcd3_ok:
  assumes r: "RequireRange sb off 3 = None" and v: "val \<le> 999999"
  shows "WriteBcd3 sb off val =
     (None, sb[unat off := ucast (push_bit 4 ((val div 100000) mod 10) OR (val div 10000) mod 10),
               unat off + 1 := ucast (push_bit 4 ((val div 1000) mod 10) OR (val div 100) mod 10),
               unat off + 2 := ucast (push_bit 4 ((val div 10) mod 10) OR val mod 10)])"
proof -
  note rr = RequireRange_3 [OF r]
  from v have nv: "\<not> 999999 < val" by simp
  show ?thesis
    unfolding WriteBcd3_def Let_def using nv rr
    by (simp add: WriteU8_ok)
qed

lemma RequireRange_length_cong:
  "length sb' = length sb \<Longrightarrow> RequireRange sb' off len = RequireRange sb off len"
  by (simp add: RequireRange_def Size_def)

lemma ReadBcd3_ok:
  assumes r: "RequireRange sb off 3 = None"
  shows "ReadBcd3 sb off =
     Inr (bcdDigit (drop_bit 4 (sb ! unat off) AND 0xF) * 100000
        + bcdDigit ((sb ! unat off) AND 0xF) * 10000
        + bcdDigit (drop_bit 4 (sb ! (unat off + 1)) AND 0xF) * 1000
        + bcdDigit ((sb ! (unat off + 1)) AND 0xF) * 100
        + bcdDigit (drop_bit 4 (sb ! (unat off + 2)) AND 0xF) * 10
        + bcdDigit ((sb ! (unat off + 2)) AND 0xF))"
proof -
  note rr = RequireRange_3 [OF r]
  show ?thesis
    unfolding ReadBcd3_def Let_def using rr
    by (simp add: ReadU8_ok)
qed

lemma Bcd3_roundtrip:
  assumes r: "RequireRange sb off 3 = None" and v: "val \<le> 999999"
  shows "fst (WriteBcd3 sb off val) = None"
    and "ReadBcd3 (snd (WriteBcd3 sb off val)) off = Inr val"
proof -
  note rr = RequireRange_3 [OF r]
  show "fst (WriteBcd3 sb off val) = None"
    by (simp add: WriteBcd3_ok [OF r v])
  define sb' where "sb' = snd (WriteBcd3 sb off val)"
  have sb': "sb' = sb[unat off := ucast (push_bit 4 ((val div 100000) mod 10) OR (val div 10000) mod 10),
               unat off + 1 := ucast (push_bit 4 ((val div 1000) mod 10) OR (val div 100) mod 10),
               unat off + 2 := ucast (push_bit 4 ((val div 10) mod 10) OR val mod 10)]"
    by (simp add: sb'_def WriteBcd3_ok [OF r v])
  then have "length sb' = length sb" by simp
  then have r': "RequireRange sb' off 3 = None"
    using r RequireRange_length_cong [of sb' sb off 3] by simp
  have n0: "sb' ! unat off = ucast (push_bit 4 ((val div 100000) mod 10) OR (val div 10000) mod 10)"
    and n1: "sb' ! (unat off + 1) = ucast (push_bit 4 ((val div 1000) mod 10) OR (val div 100) mod 10)"
    and n2: "sb' ! (unat off + 2) = ucast (push_bit 4 ((val div 10) mod 10) OR val mod 10)"
    using rr by (simp_all add: sb')
  have "ReadBcd3 sb' off = Inr val"
    unfolding ReadBcd3_ok [OF r'] n0 n1 n2
    by (simp only: bcd_byte_high bcd_byte_low mod10_less digits6_word [OF v])
  then show "ReadBcd3 (snd (WriteBcd3 sb off val)) off = Inr val"
    by (simp add: sb'_def)
qed

lemma WriteBcd2_ok:
  assumes r: "RequireRange sb off 2 = None" and v: "val \<le> 9999"
  shows "WriteBcd2 sb off val =
     (None, sb[unat off := ucast (push_bit 4 (((ucast val :: u32) div 1000) mod 10)
                                   OR ((ucast val :: u32) div 100) mod 10),
               unat off + 1 := ucast (push_bit 4 (((ucast val :: u32) div 10) mod 10)
                                   OR (ucast val :: u32) mod 10)])"
proof -
  note rr = RequireRange_2 [OF r]
  from v have nv: "\<not> 9999 < val" by simp
  show ?thesis
    unfolding WriteBcd2_def Let_def using nv rr
    by (simp add: WriteU8_ok)
qed

lemma ReadBcd2_ok:
  assumes r: "RequireRange sb off 2 = None"
  shows "ReadBcd2 sb off =
     Inr (ucast (bcdDigit (drop_bit 4 (sb ! unat off) AND 0xF) * 1000
        + bcdDigit ((sb ! unat off) AND 0xF) * 100
        + bcdDigit (drop_bit 4 (sb ! (unat off + 1)) AND 0xF) * 10
        + bcdDigit ((sb ! (unat off + 1)) AND 0xF)))"
proof -
  note rr = RequireRange_2 [OF r]
  show ?thesis
    unfolding ReadBcd2_def Let_def using rr
    by (simp add: ReadU8_ok)
qed

lemma ucast_u16_u32_le:
  assumes "(val :: u16) \<le> 9999"
  shows "(ucast val :: u32) \<le> 9999"
proof -
  from assms have "unat val \<le> 9999" by (simp add: word_le_nat_alt)
  moreover have "unat (ucast val :: u32) = unat val"
  proof -
    have "unat val < 2 ^ 32"
      using unsigned_less [of val, where 'a = nat] by simp
    then show ?thesis
      by (simp add: unsigned_ucast_eq take_bit_nat_eq_self)
  qed
  ultimately show ?thesis by (simp add: word_le_nat_alt)
qed

lemma ucast_u16_u32_u16: "(ucast (ucast (val :: u16) :: u32) :: u16) = val"
  by (simp add: ucast_up_ucast_id is_up)

lemma Bcd2_roundtrip:
  assumes r: "RequireRange sb off 2 = None" and v: "val \<le> 9999"
  shows "fst (WriteBcd2 sb off val) = None"
    and "ReadBcd2 (snd (WriteBcd2 sb off val)) off = Inr val"
proof -
  note rr = RequireRange_2 [OF r]
  note v32 = ucast_u16_u32_le [OF v]
  show "fst (WriteBcd2 sb off val) = None"
    by (simp add: WriteBcd2_ok [OF r v])
  define sb' where "sb' = snd (WriteBcd2 sb off val)"
  have sb': "sb' = sb[unat off := ucast (push_bit 4 (((ucast val :: u32) div 1000) mod 10)
                                   OR ((ucast val :: u32) div 100) mod 10),
               unat off + 1 := ucast (push_bit 4 (((ucast val :: u32) div 10) mod 10)
                                   OR (ucast val :: u32) mod 10)]"
    by (simp add: sb'_def WriteBcd2_ok [OF r v])
  then have "length sb' = length sb" by simp
  then have r': "RequireRange sb' off 2 = None"
    using r RequireRange_length_cong [of sb' sb off 2] by simp
  have n0: "sb' ! unat off = ucast (push_bit 4 (((ucast val :: u32) div 1000) mod 10)
                                   OR ((ucast val :: u32) div 100) mod 10)"
    and n1: "sb' ! (unat off + 1) = ucast (push_bit 4 (((ucast val :: u32) div 10) mod 10)
                                   OR (ucast val :: u32) mod 10)"
    using rr by (simp_all add: sb')
  have "ReadBcd2 sb' off = Inr val"
    unfolding ReadBcd2_ok [OF r'] n0 n1
    by (simp only: bcd_byte_high bcd_byte_low mod10_less digits4_word [OF v32] ucast_u16_u32_u16)
  then show "ReadBcd2 (snd (WriteBcd2 sb off val)) off = Inr val"
    by (simp add: sb'_def)
qed

text \<open>
  Claim C6. At every offset that is in range for 3 bytes, writing a value of at most
  999999 with \<open>WriteBcd3\<close> succeeds and \<open>ReadBcd3\<close> at the same offset then returns
  that value; likewise \<open>WriteBcd2\<close> and \<open>ReadBcd2\<close> for 2 bytes and values of at most
  9999. A larger value, 1000000 respectively 10000 in particular, fails with an error
  of the ValueOutOfRange class and the buffer is the one given: no byte was written.
\<close>

theorem Bcd_roundtrip_and_range:
  "(RequireRange sb off 3 = None \<and> val3 \<le> 999999 \<longrightarrow>
      fst (WriteBcd3 sb off val3) = None \<and>
      ReadBcd3 (snd (WriteBcd3 sb off val3)) off = Inr val3) \<and>
   (RequireRange sb off 2 = None \<and> val2 \<le> 9999 \<longrightarrow>
      fst (WriteBcd2 sb off val2) = None \<and>
      ReadBcd2 (snd (WriteBcd2 sb off val2)) off = Inr val2) \<and>
   (999999 < val3 \<longrightarrow> WriteBcd3 sb off val3 = (Some Bcd3ValueOutOfRange, sb)) \<and>
   (9999 < val2 \<longrightarrow> WriteBcd2 sb off val2 = (Some Bcd2ValueOutOfRange, sb)) \<and>
   WriteBcd3 sb off 1000000 = (Some Bcd3ValueOutOfRange, sb) \<and>
   WriteBcd2 sb off 10000 = (Some Bcd2ValueOutOfRange, sb) \<and>
   kind_of Bcd3ValueOutOfRange = ValueOutOfRange \<and>
   kind_of Bcd2ValueOutOfRange = ValueOutOfRange"
proof (intro conjI impI)
  assume "RequireRange sb off 3 = None \<and> val3 \<le> 999999"
  then show "fst (WriteBcd3 sb off val3) = None"
    and "ReadBcd3 (snd (WriteBcd3 sb off val3)) off = Inr val3"
    by (simp_all add: Bcd3_roundtrip)
next
  assume "RequireRange sb off 2 = None \<and> val2 \<le> 9999"
  then show "fst (WriteBcd2 sb off val2) = None"
    and "ReadBcd2 (snd (WriteBcd2 sb off val2)) off = Inr val2"
    by (simp_all add: Bcd2_roundtrip)
qed (simp_all add: WriteBcd3_def WriteBcd2_def)

text \<open>
  The theorem on the four-byte buffer of zeros at offset 1, with the values 123456 and
  9876 in range and 1000001 and 65535 out of range.
\<close>

theorem Bcd_roundtrip_and_range_witness:
  "RequireRange [0, 0, 0, 0] 1 3 = None \<and> (123456 :: u32) \<le> 999999 \<and>
   WriteBcd3 [0, 0, 0, 0] 1 123456 = (None, [0, 0x12, 0x34, 0x56]) \<and>
   ReadBcd3 [0, 0x12, 0x34, 0x56] 1 = Inr 123456 \<and>
   RequireRange [0, 0, 0, 0] 1 2 = None \<and> (9876 :: u16) \<le> 9999 \<and>
   WriteBcd2 [0, 0, 0, 0] 1 9876 = (None, [0, 0x98, 0x76, 0]) \<and>
   ReadBcd2 [0, 0x98, 0x76, 0] 1 = Inr 9876 \<and>
   (999999 :: u32) < 1000001 \<and>
   WriteBcd3 [0, 0, 0, 0] 1 1000001 = (Some Bcd3ValueOutOfRange, [0, 0, 0, 0]) \<and>
   (9999 :: u16) < 65535 \<and>
   WriteBcd2 [0, 0, 0, 0] 1 65535 = (Some Bcd2ValueOutOfRange, [0, 0, 0, 0])"
proof -
  have w3: "WriteBcd3 [0, 0, 0, 0] 1 123456 = (None, [0, 0x12, 0x34, 0x56])"
    by (simp add: WriteBcd3_def WriteU8_def RequireRange_def Size_def Let_def)
  have w2: "WriteBcd2 [0, 0, 0, 0] 1 9876 = (None, [0, 0x98, 0x76, 0])"
    by (simp add: WriteBcd2_def WriteU8_def RequireRange_def Size_def Let_def)
  have r3: "RequireRange [0, 0, 0, 0] 1 3 = None" and r2: "RequireRange [0, 0, 0, 0] 1 2 = None"
    by (simp_all add: RequireRange_def Size_def Let_def)
  show ?thesis
    using Bcd_roundtrip_and_range [of "[0, 0, 0, 0]" 1 123456 9876]
      Bcd_roundtrip_and_range [of "[0, 0, 0, 0]" 1 1000001 65535]
    by (simp add: w3 w2 r3 r2)
qed

section \<open>Failing multi-byte writes\<close>

lemma WriteU16LE_atomic: "fst (WriteU16LE sb off v) \<noteq> None \<Longrightarrow> snd (WriteU16LE sb off v) = sb"
  by (simp add: WriteU16LE_def split: option.splits)

lemma WriteU24BE_atomic: "fst (WriteU24BE sb off v) \<noteq> None \<Longrightarrow> snd (WriteU24BE sb off v) = sb"
  by (simp add: WriteU24BE_def split: option.splits)

lemma EncodeName_atomic:
  "fst (EncodeName sb off len nm) \<noteq> None \<Longrightarrow> snd (EncodeName sb off len nm) = sb"
  by (simp add: EncodeName_def Let_def split: option.splits if_splits)

text \<open>
  Claim C5 at the failing inputs. \<open>WriteBcd3\<close> of 123456 at offset 0 of a two-byte
  buffer throws at its third \<open>WriteU8\<close>, after the first two bytes were stored;
  \<open>WriteBcd2\<close> of 1234 at offset 0 of a one-byte buffer throws at its second, after the
  first byte was stored; \<open>WriteBcd3\<close> at offset 0x7FFE of the blank save of 32768 bytes
  throws after it stored the last two bytes of the save. The buffer the caller is left
  with differs from the one given.
\<close>

theorem WriteBcd_partial_mutation:
  "WriteBcd3 [0, 0] 0 123456 = (Some RangeOutOfRange, [0x12, 0x34]) \<and>
   WriteBcd2 [0] 0 1234 = (Some RangeOutOfRange, [0x12]) \<and>
   WriteBcd3 blank_save 0x7FFE 123456
     = (Some RangeOutOfRange, blank_save[0x7FFE := 0x12, 0x7FFF := 0x34]) \<and>
   blank_save ! 0x7FFE = 0 \<and>
   (blank_save[0x7FFE := 0x12, 0x7FFF := 0x34]) ! 0x7FFE = 0x12"
proof -
  have a: "WriteBcd3 [0, 0] 0 123456 = (Some RangeOutOfRange, [0x12, 0x34])"
    and b: "WriteBcd2 [0] 0 1234 = (Some RangeOutOfRange, [0x12])"
    by (simp_all add: WriteBcd3_def WriteBcd2_def WriteU8_def RequireRange_def Size_def Let_def)
  have c: "WriteBcd3 blank_save 0x7FFE 123456
     = (Some RangeOutOfRange, blank_save[0x7FFE := 0x12, 0x7FFF := 0x34])"
    by (simp add: WriteBcd3_def WriteU8_def RequireRange_def Size_def Let_def length_blank_save)
  have d: "blank_save ! 0x7FFE = 0"
    by (simp add: blank_save_nth)
  have e: "(blank_save[0x7FFE := 0x12, 0x7FFF := 0x34]) ! 0x7FFE = 0x12"
    by (simp add: length_blank_save)
  from a b c d e show ?thesis by simp
qed

section \<open>Name plausibility\<close>

lemma NameLooksReasonable_loop_counts:
  "NameLooksReasonable_loop s q nonSpace =
     (q + int (length (filter (\<lambda>c. c = CHR ''?'') s)),
      nonSpace + int (length (filter (\<lambda>c. c \<noteq> CHR '' '') s)))"
  by (induction s arbitrary: q nonSpace) simp_all

text \<open>
  Claim C8, as the code has it. \<open>NameLooksReasonable\<close> accepts a name exactly when it is
  not empty, it has a character other than the space, and fewer than half of its
  characters are the placeholder \<open>?\<close>.
\<close>

theorem NameLooksReasonable_iff:
  "NameLooksReasonable s \<longleftrightarrow>
     s \<noteq> [] \<and>
     0 < length (filter (\<lambda>c. c \<noteq> CHR '' '') s) \<and>
     2 * length (filter (\<lambda>c. c = CHR ''?'') s) < length s"
  by (auto simp: NameLooksReasonable_def NameLooksReasonable_loop_counts)

text \<open>
  Claim C8 as stated fails on the name made of one space: it is not empty and none of
  its characters is \<open>?\<close>, and it is rejected.
\<close>

theorem NameLooksReasonable_counterexample:
  "'' '' \<noteq> [] \<and>
   2 * length (filter (\<lambda>c. c = CHR ''?'') '' '') < length '' '' \<and>
   \<not> NameLooksReasonable '' ''"
  by (simp add: NameLooksReasonable_def)

section \<open>Text codec\<close>

lemma unat_u8_of_nat: "m < 256 \<Longrightarrow> unat (word_of_nat m :: u8) = m"
  by (simp add: unat_of_nat)

lemma ByteToAscii_letter:
  assumes "m < 26"
  shows "ByteToAscii (word_of_nat (128 + m)) = char_of (65 + m)"
proof -
  have u: "unat (word_of_nat (128 + m) :: u8) = 128 + m"
    using assms by (intro unat_u8_of_nat) simp
  have "(0x80 :: u8) \<le> word_of_nat (128 + m)" "(word_of_nat (128 + m) :: u8) \<le> 0x99"
    using assms by (simp_all only: word_le_nat_alt u) simp_all
  then show ?thesis
    unfolding ByteToAscii_def by (simp only: u if_True simp_thms) simp
qed

lemma ByteToAscii_digit:
  assumes "m < 10"
  shows "ByteToAscii (word_of_nat (160 + m)) = char_of (48 + m)"
proof -
  have u: "unat (word_of_nat (160 + m) :: u8) = 160 + m"
    using assms by (intro unat_u8_of_nat) simp
  have a: "\<not> ((0x80 :: u8) \<le> word_of_nat (160 + m) \<and> (word_of_nat (160 + m) :: u8) \<le> 0x99)"
    using assms by (simp only: word_le_nat_alt u) simp
  have b: "(0xA0 :: u8) \<le> word_of_nat (160 + m) \<and> (word_of_nat (160 + m) :: u8) \<le> 0xA9"
    using assms by (simp only: word_le_nat_alt u) simp
  show ?thesis
    unfolding ByteToAscii_def by (simp only: a b u if_True if_False) simp
qed

lemma ByteToAscii_space: "ByteToAscii 0x7F = CHR '' ''"
  by (simp add: ByteToAscii_def)

lemma ByteToAscii_terminator: "ByteToAscii 0x50 = CHR 0x00"
  by (simp add: ByteToAscii_def)

lemma AsciiToByte_upper:
  assumes "is_upper c"
  shows "AsciiToByte c = word_of_nat (128 + ((of_char c :: nat) - 65))"
  using assms by (simp add: AsciiToByte_def is_upper_def Let_def)

lemma AsciiToByte_digit:
  assumes "is_digit c"
  shows "AsciiToByte c = word_of_nat (160 + ((of_char c :: nat) - 48))"
  using assms by (simp add: AsciiToByte_def is_digit_def Let_def)

lemma AsciiToByte_space: "AsciiToByte CHR '' '' = 0x7F"
  by (simp add: AsciiToByte_def Let_def)

lemma of_char_lower_shift:
  assumes "is_lower c"
  shows "(of_char (char_of ((of_char c :: nat) - 97 + 65) :: char) :: nat) = of_char c - 32"
proof -
  from assms have "97 \<le> (of_char c :: nat)" "(of_char c :: nat) \<le> 122"
    by (simp_all add: is_lower_def)
  then show ?thesis by (simp add: of_char_of)
qed

lemma AsciiToByte_lower:
  assumes "is_lower c"
  shows "AsciiToByte c = word_of_nat (128 + ((of_char c :: nat) - 97))"
proof -
  from assms have r: "97 \<le> (of_char c :: nat)" "(of_char c :: nat) \<le> 122"
    by (simp_all add: is_lower_def)
  then have u: "65 \<le> (of_char c :: nat) - 32" "(of_char c :: nat) - 32 \<le> 90"
    by simp_all
  have "AsciiToByte c = word_of_nat (128 + (((of_char c :: nat) - 32) - 65))"
    unfolding AsciiToByte_def Let_def using r u
    by (simp add: of_char_lower_shift [OF assms])
  moreover have "((of_char c :: nat) - 32) - 65 = of_char c - 97" by simp
  ultimately show ?thesis by simp
qed

lemma codec_upper:
  assumes "is_upper c"
  shows "ByteToAscii (AsciiToByte c) = c"
proof -
  from assms have r: "65 \<le> (of_char c :: nat)" "(of_char c :: nat) \<le> 90"
    by (simp_all add: is_upper_def)
  then have "(of_char c :: nat) - 65 < 26" by simp
  then have "ByteToAscii (AsciiToByte c) = char_of (65 + ((of_char c :: nat) - 65))"
    by (simp only: AsciiToByte_upper [OF assms] ByteToAscii_letter)
  also have "65 + ((of_char c :: nat) - 65) = of_char c" using r by simp
  finally show ?thesis by simp
qed

lemma codec_digit:
  assumes "is_digit c"
  shows "ByteToAscii (AsciiToByte c) = c"
proof -
  from assms have r: "48 \<le> (of_char c :: nat)" "(of_char c :: nat) \<le> 57"
    by (simp_all add: is_digit_def)
  then have "(of_char c :: nat) - 48 < 10" by simp
  then have "ByteToAscii (AsciiToByte c) = char_of (48 + ((of_char c :: nat) - 48))"
    by (simp only: AsciiToByte_digit [OF assms] ByteToAscii_digit)
  also have "48 + ((of_char c :: nat) - 48) = of_char c" using r by simp
  finally show ?thesis by simp
qed

lemma codec_lower:
  assumes "is_lower c"
  shows "ByteToAscii (AsciiToByte c) = char_of ((of_char c :: nat) - 32)"
proof -
  from assms have r: "97 \<le> (of_char c :: nat)" "(of_char c :: nat) \<le> 122"
    by (simp_all add: is_lower_def)
  then have "(of_char c :: nat) - 97 < 26" by simp
  then have "ByteToAscii (AsciiToByte c) = char_of (65 + ((of_char c :: nat) - 97))"
    by (simp only: AsciiToByte_lower [OF assms] ByteToAscii_letter)
  also have "65 + ((of_char c :: nat) - 97) = of_char c - 32" using r by simp
  finally show ?thesis by simp
qed

lemma codec_name_char:
  assumes "name_char c"
  shows "ByteToAscii (AsciiToByte c) = case_normalized c"
proof -
  consider "is_lower c" | "\<not> is_lower c" "is_upper c" | "\<not> is_lower c" "is_digit c"
    | "\<not> is_lower c" "c = CHR '' ''"
    using assms by (auto simp: name_char_def)
  then show ?thesis
  proof cases
    case 1
    then show ?thesis by (simp add: codec_lower case_normalized_def)
  next
    case 2
    then show ?thesis by (simp add: codec_upper case_normalized_def)
  next
    case 3
    then show ?thesis by (simp add: codec_digit case_normalized_def)
  next
    case 4
    then show ?thesis
      by (simp add: AsciiToByte_space ByteToAscii_space case_normalized_def)
  qed
qed

lemma AsciiToByte_cases:
  "(\<exists>m<26. AsciiToByte c = word_of_nat (128 + m))
   \<or> (\<exists>m<10. AsciiToByte c = word_of_nat (160 + m))
   \<or> AsciiToByte c = 0x7F"
proof -
  consider "is_lower c" | "\<not> is_lower c" "is_upper c" | "\<not> is_lower c" "\<not> is_upper c" "is_digit c"
    | "\<not> is_lower c" "\<not> is_upper c" "\<not> is_digit c"
    by auto
  then show ?thesis
  proof cases
    case 1
    then have "(of_char c :: nat) - 97 < 26" by (auto simp: is_lower_def)
    with AsciiToByte_lower [OF 1] show ?thesis by blast
  next
    case 2
    then have "(of_char c :: nat) - 65 < 26" by (auto simp: is_upper_def)
    with AsciiToByte_upper [OF 2(2)] show ?thesis by blast
  next
    case 3
    then have "(of_char c :: nat) - 48 < 10" by (auto simp: is_digit_def)
    with AsciiToByte_digit [OF 3(3)] show ?thesis by blast
  next
    case 4
    then have "AsciiToByte c = 0x7F"
      by (auto simp: AsciiToByte_def Let_def is_lower_def is_upper_def is_digit_def)
    then show ?thesis by simp
  qed
qed

lemma char_of_nonzero:
  assumes "0 < n" and "n < 256"
  shows "(char_of (n :: nat) :: char) \<noteq> CHR 0x00"
proof
  assume "(char_of n :: char) = CHR 0x00"
  then have "(of_char (char_of n :: char) :: nat) = of_char (CHR 0x00)" by simp
  with assms show False by (simp add: of_char_of)
qed

lemma codec_not_terminator: "ByteToAscii (AsciiToByte c) \<noteq> CHR 0x00"
proof -
  from AsciiToByte_cases [of c] consider
    m where "m < 26" "AsciiToByte c = word_of_nat (128 + m)"
    | m where "m < 10" "AsciiToByte c = word_of_nat (160 + m)"
    | "AsciiToByte c = 0x7F"
    by blast
  then show ?thesis
  proof cases
    case 1
    then show ?thesis by (simp only: ByteToAscii_letter) (rule char_of_nonzero; simp)
  next
    case 2
    then show ?thesis by (simp only: ByteToAscii_digit) (rule char_of_nonzero; simp)
  next
    case 3
    then show ?thesis by (simp add: ByteToAscii_space)
  qed
qed

lemma EncodeName_loop_eq:
  assumes "i \<le> n" and "n \<le> length nm" and "n \<le> length out"
  shows "EncodeName_loop nm i n out
       = take i out @ map AsciiToByte (take (n - i) (drop i nm)) @ drop n out"
  using assms
proof (induction nm i n out rule: EncodeName_loop.induct)
  case (1 nm i n out)
  show ?case
  proof (cases "i < n")
    case False
    with "1.prems" have "i = n" by simp
    then show ?thesis by (simp add: EncodeName_loop.simps [of nm n n out])
  next
    case True
    let ?x = "AsciiToByte (nm ! i)"
    from True "1.prems" have i: "i < length out" "i < length nm" by simp_all
    have "EncodeName_loop nm i n out = EncodeName_loop nm (Suc i) n (out[i := ?x])"
      using True by (simp add: EncodeName_loop.simps [of nm i n out])
    also have "\<dots> = take (Suc i) (out[i := ?x])
          @ map AsciiToByte (take (n - Suc i) (drop (Suc i) nm)) @ drop n (out[i := ?x])"
      using True "1.prems" by (intro "1.IH") simp_all
    also have "take (Suc i) (out[i := ?x]) = take i out @ [?x]"
      using i by (simp add: take_Suc_conv_app_nth)
    also have "drop n (out[i := ?x]) = drop n out"
      using True by simp
    also have "(take i out @ [?x]) @ map AsciiToByte (take (n - Suc i) (drop (Suc i) nm)) @ drop n out
        = take i out @ map AsciiToByte (nm ! i # take (n - Suc i) (drop (Suc i) nm)) @ drop n out"
      by simp
    also have "nm ! i # take (n - Suc i) (drop (Suc i) nm) = take (n - i) (drop i nm)"
    proof -
      from True obtain k where k: "n - i = Suc k" by (cases "n - i") simp_all
      then have "n - Suc i = k" by simp
      with k i show ?thesis by (simp add: Cons_nth_drop_Suc [symmetric])
    qed
    finally show ?thesis .
  qed
qed

lemma copy_bytes_eq:
  assumes "k + length xs \<le> length sb"
  shows "copy_bytes xs sb k = take k sb @ xs @ drop (k + length xs) sb"
  using assms
proof (induction xs arbitrary: sb k)
  case Nil
  then show ?case by simp
next
  case (Cons x xs)
  from Cons.prems have k: "k < length sb" by simp
  have "copy_bytes (x # xs) sb k = copy_bytes xs (sb[k := x]) (Suc k)" by simp
  also have "\<dots> = take (Suc k) (sb[k := x]) @ xs @ drop (Suc k + length xs) (sb[k := x])"
    using Cons.prems by (intro Cons.IH) simp
  also have "take (Suc k) (sb[k := x]) = take k sb @ [x]"
    using k by (simp add: take_Suc_conv_app_nth)
  also have "drop (Suc k + length xs) (sb[k := x]) = drop (k + length (x # xs)) sb"
    by simp
  finally show ?case by simp
qed

lemma map_nth_middle:
  "map (\<lambda>i. (a @ xs @ b) ! i) [length a ..< length a + length xs] = xs"
proof (rule nth_equalityI)
  show "length (map (\<lambda>i. (a @ xs @ b) ! i) [length a ..< length a + length xs]) = length xs"
    by simp
next
  fix i
  assume "i < length (map (\<lambda>i. (a @ xs @ b) ! i) [length a ..< length a + length xs])"
  then have "i < length xs" by simp
  then show "map (\<lambda>i. (a @ xs @ b) ! i) [length a ..< length a + length xs] ! i = xs ! i"
    by (simp add: nth_append)
qed

lemma DecodeName_loop_eq:
  "DecodeName_loop bs acc
     = acc @ map ByteToAscii (takeWhile (\<lambda>b. ByteToAscii b \<noteq> CHR 0x00) bs)"
  by (induction bs arbitrary: acc) (simp_all add: Let_def)

lemma Slice_ok:
  assumes "RequireRange sb off len = None" and "len \<noteq> 0"
  shows "Slice sb off len = Inr (map (\<lambda>i. sb ! i) [unat off ..< unat off + unat len])"
proof -
  from assms have "unat off + unat len < 2 ^ 64"
    by (simp add: RequireRange_None_iff)
  then have "unat (off + len) = unat off + unat len"
    by (simp add: unat_add_lem [THEN iffD1])
  with assms(1) show ?thesis by (simp add: Slice_def)
qed

lemma length_encoded_field: "0 < len \<Longrightarrow> length (encoded_field len nm) = len"
  by (auto simp: encoded_field_def min_def)

lemma EncodeName_ok:
  assumes r: "RequireRange sb off len = None" and l: "len \<noteq> 0"
  shows "EncodeName sb off len nm =
     (None, take (unat off) sb @ encoded_field (unat len) nm
            @ drop (unat off + unat len) sb)"
proof -
  define n where "n = min (length nm) (unat len - 1)"
  from l have pos: "0 < unat len" by (simp add: unat_gt_0)
  have m1: "unat (len - 1) = unat len - 1"
    using l by (simp add: unat_minus_one)
  have n: "n \<le> length nm" "n < unat len" "n \<le> length (replicate (unat len) (0x50 :: u8))"
    using pos by (simp_all add: n_def)
  have out1: "EncodeName_loop nm 0 n (replicate (unat len) 0x50)
      = map AsciiToByte (take n nm) @ replicate (unat len - n) 0x50"
    using EncodeName_loop_eq [of 0 n nm "replicate (unat len) 0x50"] n by simp
  have "(map AsciiToByte (take n nm) @ replicate (unat len - n) (0x50 :: u8))[n := 0x50]
      = map AsciiToByte (take n nm) @ replicate (unat len - n) 0x50"
  proof -
    have "length (map AsciiToByte (take n nm)) = n" using n by simp
    moreover have "(replicate (unat len - n) (0x50 :: u8))[0 := 0x50] = replicate (unat len - n) 0x50"
      by (cases "unat len - n") simp_all
    ultimately show ?thesis using n by (simp add: list_update_append)
  qed
  moreover have "take n nm = take (unat len - 1) nm"
    by (simp add: n_def min_def)
  ultimately have out: "(EncodeName_loop nm 0 n (replicate (unat len) 0x50))[n := 0x50]
      = encoded_field (unat len) nm"
    using out1 by (simp add: encoded_field_def n_def)
  from r l have fit: "unat off + unat len \<le> length sb"
    by (simp add: RequireRange_None_iff)
  have "EncodeName sb off len nm = (None, copy_bytes (encoded_field (unat len) nm) sb (unat off))"
    unfolding EncodeName_def Let_def m1 using l r out by (simp add: n_def)
  also have "copy_bytes (encoded_field (unat len) nm) sb (unat off)
      = take (unat off) sb @ encoded_field (unat len) nm @ drop (unat off + unat len) sb"
    using fit pos by (simp add: copy_bytes_eq length_encoded_field)
  finally show ?thesis .
qed

lemma EncodeName_then_Slice:
  assumes r: "RequireRange sb off len = None" and l: "len \<noteq> 0"
  shows "Slice (snd (EncodeName sb off len nm)) off len = Inr (encoded_field (unat len) nm)"
proof -
  from l have pos: "0 < unat len" by (simp add: unat_gt_0)
  from r l have fit: "unat off + unat len \<le> length sb"
    by (simp add: RequireRange_None_iff)
  define sb' where "sb' = snd (EncodeName sb off len nm)"
  have sb': "sb' = take (unat off) sb @ encoded_field (unat len) nm
                  @ drop (unat off + unat len) sb"
    by (simp add: sb'_def EncodeName_ok [OF r l])
  have "length sb' = length sb"
    using fit pos by (simp add: sb' length_encoded_field)
  then have r': "RequireRange sb' off len = None"
    using r RequireRange_length_cong [of sb' sb off len] by simp
  have "map (\<lambda>i. sb' ! i) [unat off ..< unat off + unat len] = encoded_field (unat len) nm"
    using map_nth_middle [of "take (unat off) sb" "encoded_field (unat len) nm"
        "drop (unat off + unat len) sb"] fit pos
    by (simp add: sb' length_encoded_field)
  then show ?thesis
    using Slice_ok [OF r' l] by (simp add: sb'_def)
qed

lemma decode_encoded_field:
  assumes "length nm < len"
  shows "DecodeName_loop (encoded_field len nm) [] = map (\<lambda>c. ByteToAscii (AsciiToByte c)) nm"
proof -
  from assms obtain k where k: "len - min (length nm) (len - 1) = Suc k"
    by (cases "len - min (length nm) (len - 1)") (simp_all add: min_def split: if_splits)
  from assms have t: "take (len - 1) nm = nm" by simp
  have "takeWhile (\<lambda>b. ByteToAscii b \<noteq> CHR 0x00) (encoded_field len nm)
      = map AsciiToByte nm @ takeWhile (\<lambda>b. ByteToAscii b \<noteq> CHR 0x00) (replicate (Suc k) 0x50)"
    unfolding encoded_field_def t k
    by (rule takeWhile_append2) (auto simp: codec_not_terminator)
  also have "takeWhile (\<lambda>b. ByteToAscii b \<noteq> CHR 0x00) (replicate (Suc k) 0x50) = []"
    by (simp add: ByteToAscii_terminator)
  finally show ?thesis
    by (simp add: DecodeName_loop_eq)
qed

lemma encoded_field_last:
  assumes "0 < len"
  shows "encoded_field len nm ! (len - 1) = 0x50"
proof -
  define n where "n = min (length nm) (len - 1)"
  define xs where "xs = map AsciiToByte (take (len - 1) nm)"
  have a: "length xs = n"
    by (simp add: xs_def n_def min_def)
  from assms have b: "n \<le> len - 1" "len - 1 - n < len - n"
    by (simp_all add: n_def)
  have "encoded_field len nm = xs @ replicate (len - n) 0x50"
    by (simp add: encoded_field_def n_def xs_def)
  also have "\<dots> ! (len - 1) = replicate (len - n) 0x50 ! (len - 1 - n)"
    using a b(1) by (simp add: nth_append)
  also have "\<dots> = 0x50"
    using b(2) by (rule nth_replicate)
  finally show ?thesis .
qed

lemma unat_11: "unat (11 :: size_t) = 11" and unat_0x0B: "unat (0x0B :: size_t) = 11"
  by simp_all

text \<open>
  Claim C7. For every name field of 11 bytes that is in range and every name of at most
  10 characters drawn from upper-case letters, digits, the space and lower-case letters,
  \<open>EncodeName\<close> succeeds and \<open>DecodeName\<close> of the field then returns the name with its
  lower-case letters turned into upper case. For every name of at least 10 characters,
  the last byte of the field, at offset 10, is the terminator 0x50 after \<open>EncodeName\<close>.
\<close>

theorem EncodeName_DecodeName_roundtrip:
  "(RequireRange sb off 11 = None \<and> length nm \<le> 10 \<and> (\<forall>c \<in> set nm. name_char c) \<longrightarrow>
      fst (EncodeName sb off 11 nm) = None \<and>
      DecodeName (snd (EncodeName sb off 11 nm)) off 11 = Inr (map case_normalized nm)) \<and>
   (RequireRange sb off 11 = None \<and> 10 \<le> length nm \<longrightarrow>
      fst (EncodeName sb off 11 nm) = None \<and>
      ReadU8 (snd (EncodeName sb off 11 nm)) (off + 10) = Inr 0x50)"
proof (intro conjI impI)
  assume h: "RequireRange sb off 11 = None \<and> length nm \<le> 10 \<and> (\<forall>c \<in> set nm. name_char c)"
  then have r: "RequireRange sb off 11 = None" by simp
  have l: "(11 :: size_t) \<noteq> 0" by simp
  show "fst (EncodeName sb off 11 nm) = None"
    by (simp add: EncodeName_ok [OF r l])
  have "DecodeName (snd (EncodeName sb off 11 nm)) off 11
      = Inr (DecodeName_loop (encoded_field 11 nm) [])"
    using EncodeName_then_Slice [OF r l, of nm] by (simp add: DecodeName_def)
  also have "DecodeName_loop (encoded_field 11 nm) [] = map (\<lambda>c. ByteToAscii (AsciiToByte c)) nm"
    using h by (intro decode_encoded_field) simp
  also have "\<dots> = map case_normalized nm"
    using h by (simp add: codec_name_char)
  finally show "DecodeName (snd (EncodeName sb off 11 nm)) off 11 = Inr (map case_normalized nm)" .
next
  assume h: "RequireRange sb off 11 = None \<and> 10 \<le> length nm"
  then have r: "RequireRange sb off 11 = None" by simp
  have l: "(11 :: size_t) \<noteq> 0" by simp
  show "fst (EncodeName sb off 11 nm) = None"
    by (simp add: EncodeName_ok [OF r l])
  from r have fit: "unat off + 11 \<le> length sb" "unat off + 11 < 2 ^ 64"
    by (simp_all add: RequireRange_None_iff)
  then have u: "unat (off + 10) = unat off + 10"
    using unat_off_plus [of off 10] by simp
  define sb' where "sb' = snd (EncodeName sb off 11 nm)"
  have sb': "sb' = take (unat off) sb @ encoded_field 11 nm @ drop (unat off + 11) sb"
    by (simp add: sb'_def EncodeName_ok [OF r l])
  have len: "length sb' = length sb"
    using fit by (simp add: sb' length_encoded_field)
  have "sb' ! (unat off + 10) = encoded_field 11 nm ! 10"
    using fit by (simp add: sb' nth_append length_encoded_field)
  also have "\<dots> = 0x50"
    using encoded_field_last [of 11 nm] by simp
  finally have "sb' ! (unat off + 10) = 0x50" .
  moreover have "ReadU8 sb' (off + 10) = Inr (sb' ! unat (off + 10))"
    using fit u len by (intro ReadU8_ok) simp_all
  ultimately show "ReadU8 (snd (EncodeName sb off 11 nm)) (off + 10) = Inr 0x50"
    by (simp add: u sb'_def)
qed

text \<open>
  The theorem on a buffer of 12 zero bytes with the field at offset 1: the name
  \<open>Red 1\<close> comes back as \<open>RED 1\<close>, and the name of 11 letters leaves the terminator in
  the last byte of the field.
\<close>

theorem EncodeName_DecodeName_roundtrip_witness:
  "RequireRange (replicate 12 0) 1 11 = None \<and> length ''Red 1'' \<le> 10 \<and>
   list_all name_char ''Red 1'' \<and>
   fst (EncodeName (replicate 12 0) 1 11 ''Red 1'') = None \<and>
   DecodeName (snd (EncodeName (replicate 12 0) 1 11 ''Red 1'')) 1 11 = Inr ''RED 1'' \<and>
   10 \<le> length ''ABCDEFGHIJK'' \<and>
   fst (EncodeName (replicate 12 0) 1 11 ''ABCDEFGHIJK'') = None \<and>
   ReadU8 (snd (EncodeName (replicate 12 0) 1 11 ''ABCDEFGHIJK'')) (1 + 10) = Inr 0x50"
proof -
  have r: "RequireRange (replicate 12 0) 1 11 = None"
    by (simp add: RequireRange_def Size_def Let_def)
  have c: "\<forall>c \<in> set ''Red 1''. name_char c"
    by (simp add: name_char_def is_upper_def is_lower_def is_digit_def)
  have n: "case_normalized CHR ''R'' = CHR ''R''" "case_normalized CHR ''e'' = CHR ''E''"
    "case_normalized CHR ''d'' = CHR ''D''" "case_normalized CHR '' '' = CHR '' ''"
    "case_normalized CHR ''1'' = CHR ''1''"
    by (simp_all add: case_normalized_def is_lower_def char_of_eq_iff)
  show ?thesis
    using EncodeName_DecodeName_roundtrip [of "replicate 12 0" 1 "''Red 1''"]
      EncodeName_DecodeName_roundtrip [of "replicate 12 0" 1 "''ABCDEFGHIJK''"]
    by (simp add: r c n list_all_iff)
qed

section \<open>Checksums\<close>

lemma ReadU8_Inr_unat:
  assumes "ReadU8 sb i = Inr b"
  shows "unat (i + 1) = unat i + 1" and "unat i < length sb" and "b = sb ! unat i"
proof -
  from assms have r: "RequireRange sb i 1 = None" and b: "b = sb ! unat i"
    by (auto simp: ReadU8_def split: option.splits)
  from r have "unat i + 1 \<le> length sb" "unat i + 1 < 2 ^ 64"
    by (simp_all add: RequireRange_None_iff)
  then show "unat (i + 1) = unat i + 1" and "unat i < length sb"
    using unat_off_plus [of i 1] by simp_all
  from b show "b = sb ! unat i" .
qed

lemma ReadU8_cong:
  assumes "length sb' = length sb" and "sb' ! unat i = sb ! unat i"
  shows "ReadU8 sb' i = ReadU8 sb i"
  using assms RequireRange_length_cong [of sb' sb i 1]
  by (simp add: ReadU8_def split: option.splits)

lemma sumAndInvert8_loop_cong:
  assumes "length sb' = length sb"
    and "\<forall>k. unat i \<le> k \<and> k \<le> unat endInclusive \<longrightarrow> sb' ! k = sb ! k"
  shows "sumAndInvert8_loop sb' i endInclusive acc = sumAndInvert8_loop sb i endInclusive acc"
  using assms
proof (induction sb i endInclusive acc rule: sumAndInvert8_loop.induct)
  case (1 sb i endInclusive acc)
  show ?case
  proof (cases "i \<le> endInclusive")
    case False
    then show ?thesis
      by (simp add: sumAndInvert8_loop.simps [of sb' i] sumAndInvert8_loop.simps [of sb i])
  next
    case True
    then have "unat i \<le> unat endInclusive" by (simp add: word_le_nat_alt)
    with "1.prems" have rd: "ReadU8 sb' i = ReadU8 sb i"
      by (intro ReadU8_cong) simp_all
    show ?thesis
    proof (cases "ReadU8 sb i")
      case (Inl e)
      with rd True show ?thesis
        by (simp add: sumAndInvert8_loop.simps [of sb' i] sumAndInvert8_loop.simps [of sb i])
    next
      case (Inr b)
      then have "unat (i + 1) = unat i + 1" by (rule ReadU8_Inr_unat)
      with "1.prems" have "sumAndInvert8_loop sb' (i + 1) endInclusive (acc + ucast b)
          = sumAndInvert8_loop sb (i + 1) endInclusive (acc + ucast b)"
        using True Inr by (intro "1.IH") simp_all
      with rd True Inr show ?thesis
        by (simp add: sumAndInvert8_loop.simps [of sb' i] sumAndInvert8_loop.simps [of sb i])
    qed
  qed
qed

lemma sumAndInvert8_loop_ok:
  assumes "unat endInclusive < length sb" and "unat endInclusive + 1 < 2 ^ 64"
  shows "\<exists>s. sumAndInvert8_loop sb i endInclusive acc = Inr s"
  using assms
proof (induction sb i endInclusive acc rule: sumAndInvert8_loop.induct)
  case (1 sb i endInclusive acc)
  show ?case
  proof (cases "i \<le> endInclusive")
    case False
    then show ?thesis by (simp add: sumAndInvert8_loop.simps [of sb i])
  next
    case True
    then have le: "unat i \<le> unat endInclusive" by (simp add: word_le_nat_alt)
    with "1.prems" have rd: "ReadU8 sb i = Inr (sb ! unat i)"
      by (intro ReadU8_ok) simp_all
    then have "\<exists>s. sumAndInvert8_loop sb (i + 1) endInclusive (acc + ucast (sb ! unat i)) = Inr s"
      using True "1.prems" by (intro "1.IH") simp_all
    with rd True show ?thesis
      by (simp add: sumAndInvert8_loop.simps [of sb i])
  qed
qed

lemma sumAndInvert8_ok:
  assumes "startInclusive \<le> endInclusive"
    and "unat endInclusive < length sb" and "unat endInclusive + 1 < 2 ^ 64"
  shows "\<exists>c. sumAndInvert8 sb startInclusive endInclusive = Inr c"
proof -
  from sumAndInvert8_loop_ok [OF assms(2,3)] obtain s
    where "sumAndInvert8_loop sb startInclusive endInclusive 0 = Inr s" by blast
  with assms(1) show ?thesis by (simp add: sumAndInvert8_def Let_def)
qed

lemma sumAndInvert8_update:
  assumes "\<not> (unat startInclusive \<le> k \<and> k \<le> unat endInclusive)"
  shows "sumAndInvert8 (sb[k := v]) startInclusive endInclusive
       = sumAndInvert8 sb startInclusive endInclusive"
proof -
  have "sumAndInvert8_loop (sb[k := v]) startInclusive endInclusive 0
      = sumAndInvert8_loop sb startInclusive endInclusive 0"
    using assms by (intro sumAndInvert8_loop_cong) auto
  then show ?thesis by (simp add: sumAndInvert8_def)
qed

text \<open>
  The shape shared by the three repairs: the checksum of a range is stored at an offset
  outside the range.
\<close>

lemma repair_then_validate:
  assumes c: "sumAndInvert8 sb s e = Inr c"
    and out: "\<not> (unat s \<le> unat off \<and> unat off \<le> unat e)"
    and off: "unat off < length sb" "unat off + 1 < 2 ^ 64"
  shows "WriteU8 sb off c = (None, sb[unat off := c])"
    and "sumAndInvert8 (sb[unat off := c]) s e = Inr c"
    and "ReadU8 (sb[unat off := c]) off = Inr c"
    and "WriteU8 (sb[unat off := c]) off c = (None, sb[unat off := c])"
proof -
  show "WriteU8 sb off c = (None, sb[unat off := c])"
    using off by (rule WriteU8_ok)
  show "sumAndInvert8 (sb[unat off := c]) s e = Inr c"
    using sumAndInvert8_update [OF out] c by simp
  show "ReadU8 (sb[unat off := c]) off = Inr c"
    using off by (simp add: ReadU8_ok)
  show "WriteU8 (sb[unat off := c]) off c = (None, sb[unat off := c])"
    using off by (simp add: WriteU8_ok)
qed

lemma repair_scope:
  assumes le: "s \<le> e" and lt: "unat e < unat off"
    and off: "unat off < length sb" "unat off + 1 < 2 ^ 64"
  shows "\<exists>c. sumAndInvert8 sb s e = Inr c
           \<and> WriteU8 sb off c = (None, sb[unat off := c])
           \<and> sumAndInvert8 (sb[unat off := c]) s e = Inr c
           \<and> ReadU8 (sb[unat off := c]) off = Inr c
           \<and> WriteU8 (sb[unat off := c]) off c = (None, sb[unat off := c])"
proof -
  from lt off have "unat e < length sb" "unat e + 1 < 2 ^ 64" by simp_all
  with le obtain c where c: "sumAndInvert8 sb s e = Inr c"
    using sumAndInvert8_ok [of s e sb] by blast
  from lt have out: "\<not> (unat s \<le> unat off \<and> unat off \<le> unat e)" by simp
  from repair_then_validate [OF c out off] c show ?thesis by blast
qed

lemma FixMain_repairs:
  assumes "unat MainChecksumOff < length sb"
  shows "fst (FixMain sb) = None"
    and "ValidateMain (snd (FixMain sb)) = Inr True"
    and "FixMain (snd (FixMain sb)) = (None, snd (FixMain sb))"
proof -
  have "\<exists>c. sumAndInvert8 sb MainChecksumStart MainChecksumEnd = Inr c
           \<and> WriteU8 sb MainChecksumOff c = (None, sb[unat MainChecksumOff := c])
           \<and> sumAndInvert8 (sb[unat MainChecksumOff := c]) MainChecksumStart MainChecksumEnd = Inr c
           \<and> ReadU8 (sb[unat MainChecksumOff := c]) MainChecksumOff = Inr c
           \<and> WriteU8 (sb[unat MainChecksumOff := c]) MainChecksumOff c
               = (None, sb[unat MainChecksumOff := c])"
    using assms
    by (intro repair_scope)
      (simp_all add: MainChecksumStart_def MainChecksumEnd_def MainChecksumOff_def)
  then obtain c where c: "sumAndInvert8 sb MainChecksumStart MainChecksumEnd = Inr c"
    "WriteU8 sb MainChecksumOff c = (None, sb[unat MainChecksumOff := c])"
    "sumAndInvert8 (sb[unat MainChecksumOff := c]) MainChecksumStart MainChecksumEnd = Inr c"
    "ReadU8 (sb[unat MainChecksumOff := c]) MainChecksumOff = Inr c"
    "WriteU8 (sb[unat MainChecksumOff := c]) MainChecksumOff c
       = (None, sb[unat MainChecksumOff := c])"
    by blast
  have fx: "FixMain sb = (None, sb[unat MainChecksumOff := c])"
    using c(1,2) by (simp add: FixMain_def ComputeMain_def)
  show "fst (FixMain sb) = None" by (simp add: fx)
  show "ValidateMain (snd (FixMain sb)) = Inr True"
    using c(3,4) by (simp add: fx ValidateMain_def ComputeMain_def)
  show "FixMain (snd (FixMain sb)) = (None, snd (FixMain sb))"
    unfolding fx snd_conv using c(3,5) by (simp add: FixMain_def ComputeMain_def)
qed

lemma FixBankAll_repairs:
  assumes b: "bank = 2 \<or> bank = 3"
    and "unat (if bank = 2 then Bank2AllChecksumOff else Bank3AllChecksumOff) < length sb"
  shows "fst (FixBankAll sb bank) = None"
    and "ValidateBankAll (snd (FixBankAll sb bank)) bank = Inr True"
    and "FixBankAll (snd (FixBankAll sb bank)) bank = (None, snd (FixBankAll sb bank))"
proof -
  define s where "s = (if bank = 2 then Bank2Base else Bank3Base)"
  define off where "off = (if bank = 2 then Bank2AllChecksumOff else Bank3AllChecksumOff)"
  have cb: "\<And>sb'. ComputeBankAll sb' bank = sumAndInvert8 sb' s (off - 1)"
    using b by (auto simp: ComputeBankAll_def s_def off_def Let_def)
  have "\<exists>c. sumAndInvert8 sb s (off - 1) = Inr c
           \<and> WriteU8 sb off c = (None, sb[unat off := c])
           \<and> sumAndInvert8 (sb[unat off := c]) s (off - 1) = Inr c
           \<and> ReadU8 (sb[unat off := c]) off = Inr c
           \<and> WriteU8 (sb[unat off := c]) off c = (None, sb[unat off := c])"
    using assms
    by (intro repair_scope)
      (auto simp: s_def off_def Bank2Base_def Bank3Base_def Bank2AllChecksumOff_def
        Bank3AllChecksumOff_def)
  then obtain c where c: "sumAndInvert8 sb s (off - 1) = Inr c"
    "WriteU8 sb off c = (None, sb[unat off := c])"
    "sumAndInvert8 (sb[unat off := c]) s (off - 1) = Inr c"
    "ReadU8 (sb[unat off := c]) off = Inr c"
    "WriteU8 (sb[unat off := c]) off c = (None, sb[unat off := c])"
    by blast
  have fx: "FixBankAll sb bank = (None, sb[unat off := c])"
    using c(1,2) by (simp add: FixBankAll_def cb Let_def off_def [symmetric])
  show "fst (FixBankAll sb bank) = None" by (simp add: fx)
  show "ValidateBankAll (snd (FixBankAll sb bank)) bank = Inr True"
    using c(3,4) by (simp add: fx ValidateBankAll_def cb Let_def off_def [symmetric])
  show "FixBankAll (snd (FixBankAll sb bank)) bank = (None, snd (FixBankAll sb bank))"
    unfolding fx snd_conv using c(3,5)
    by (simp add: FixBankAll_def cb Let_def off_def [symmetric])
qed

lemma int_1_12:
  assumes "1 \<le> i" and "i \<le> 12"
  shows "i \<in> {1, 2, 3, 4, 5, 6, 7, 8, 9, 10, 11, 12 :: int}"
proof -
  from assms have "i = 1 \<or> i = 2 \<or> i = 3 \<or> i = 4 \<or> i = 5 \<or> i = 6 \<or> i = 7 \<or> i = 8
      \<or> i = 9 \<or> i = 10 \<or> i = 11 \<or> i = 12"
    by arith
  then show ?thesis by simp
qed

lemma box_layout:
  assumes "1 \<le> i" and "i \<le> 12"
  shows "\<exists>s tb. BoxBaseOffsetByIndex1to12 i = Inr s
           \<and> BankPerBoxChecksumsBaseOffsetForBoxIndex1to12 i = Inr tb
           \<and> s \<le> s + BoxBlockSize - 1
           \<and> unat (s + BoxBlockSize - 1)
               < unat (tb + word_of_int (if i \<le> 6 then i - 1 else i - 7))
           \<and> unat (tb + word_of_int (if i \<le> 6 then i - 1 else i - 7))
               = unat (if i \<le> 6 then Bank2BoxChecksumsOff else Bank3BoxChecksumsOff)
                 + nat (if i \<le> 6 then i - 1 else i - 7)"
proof -
  from assms have "i \<in> {1, 2, 3, 4, 5, 6, 7, 8, 9, 10, 11, 12}"
    by (intro int_1_12) simp_all
  then show ?thesis
    by (auto simp: BoxBaseOffsetByIndex1to12_def
        BankPerBoxChecksumsBaseOffsetForBoxIndex1to12_def Box1Off_def Box7Off_def
        BoxBlockSize_def Bank2BoxChecksumsOff_def Bank3BoxChecksumsOff_def)
qed

lemma FixBox_repairs:
  assumes i: "1 \<le> i" "i \<le> 12"
    and len: "unat (if i \<le> 6 then Bank2BoxChecksumsOff else Bank3BoxChecksumsOff)
                + nat (if i \<le> 6 then i - 1 else i - 7) < length sb"
  shows "fst (FixBox sb i) = None"
    and "ValidateBox (snd (FixBox sb i)) i = Inr True"
    and "FixBox (snd (FixBox sb i)) i = (None, snd (FixBox sb i))"
proof -
  define w where "w = (if i \<le> 6 then i - 1 else i - 7)"
  from box_layout [OF i] obtain s tb where
    s: "BoxBaseOffsetByIndex1to12 i = Inr s"
    and tb: "BankPerBoxChecksumsBaseOffsetForBoxIndex1to12 i = Inr tb"
    and le: "s \<le> s + BoxBlockSize - 1"
    and lt: "unat (s + BoxBlockSize - 1) < unat (tb + word_of_int w)"
    and off: "unat (tb + word_of_int w)
               = unat (if i \<le> 6 then Bank2BoxChecksumsOff else Bank3BoxChecksumsOff) + nat w"
    unfolding w_def by blast
  define off where "off = tb + word_of_int w"
  define e where "e = s + BoxBlockSize - 1"
  have cb: "\<And>sb'. ComputeBox sb' i = sumAndInvert8 sb' s e"
    by (simp add: ComputeBox_def s e_def Let_def)
  have o1: "unat off < length sb"
    using len off by (simp add: off_def w_def)
  have o2: "unat off + 1 < 2 ^ 64"
  proof -
    have "unat (if i \<le> 6 then Bank2BoxChecksumsOff else Bank3BoxChecksumsOff) < 2 ^ 16"
      by (simp add: Bank2BoxChecksumsOff_def Bank3BoxChecksumsOff_def)
    moreover have "nat w < 12" using i unfolding w_def by (simp split: if_splits) arith
    ultimately show ?thesis using off by (simp add: off_def)
  qed
  have "\<exists>c. sumAndInvert8 sb s e = Inr c
           \<and> WriteU8 sb off c = (None, sb[unat off := c])
           \<and> sumAndInvert8 (sb[unat off := c]) s e = Inr c
           \<and> ReadU8 (sb[unat off := c]) off = Inr c
           \<and> WriteU8 (sb[unat off := c]) off c = (None, sb[unat off := c])"
    using le lt o1 o2 unfolding e_def off_def by (intro repair_scope)
  then obtain c where c: "sumAndInvert8 sb s e = Inr c"
    "WriteU8 sb off c = (None, sb[unat off := c])"
    "sumAndInvert8 (sb[unat off := c]) s e = Inr c"
    "ReadU8 (sb[unat off := c]) off = Inr c"
    "WriteU8 (sb[unat off := c]) off c = (None, sb[unat off := c])"
    by blast
  have fx: "FixBox sb i = (None, sb[unat off := c])"
    using c(1,2) by (simp add: FixBox_def tb cb Let_def w_def [symmetric] off_def [symmetric])
  show "fst (FixBox sb i) = None" by (simp add: fx)
  show "ValidateBox (snd (FixBox sb i)) i = Inr True"
    unfolding fx snd_conv using c(3,4)
    by (simp add: ValidateBox_def tb cb Let_def w_def [symmetric] off_def [symmetric])
  show "FixBox (snd (FixBox sb i)) i = (None, snd (FixBox sb i))"
    unfolding fx snd_conv using c(3,5)
    by (simp add: FixBox_def tb cb Let_def w_def [symmetric] off_def [symmetric])
qed

lemma sumAndInvert8_loop_zeros:
  assumes "unat endInclusive < length sb" and "unat endInclusive + 1 < 2 ^ 64"
    and "\<forall>k. unat i \<le> k \<and> k \<le> unat endInclusive \<longrightarrow> sb ! k = 0"
  shows "sumAndInvert8_loop sb i endInclusive acc = Inr acc"
  using assms
proof (induction sb i endInclusive acc rule: sumAndInvert8_loop.induct)
  case (1 sb i endInclusive acc)
  show ?case
  proof (cases "i \<le> endInclusive")
    case False
    then show ?thesis by (simp add: sumAndInvert8_loop.simps [of sb i])
  next
    case True
    then have le: "unat i \<le> unat endInclusive" by (simp add: word_le_nat_alt)
    with "1.prems" have z: "sb ! unat i = 0" by simp
    from le "1.prems" have rd: "ReadU8 sb i = Inr (sb ! unat i)"
      by (intro ReadU8_ok) simp_all
    then have u: "unat (i + 1) = unat i + 1" by (rule ReadU8_Inr_unat)
    have "sumAndInvert8_loop sb (i + 1) endInclusive (acc + ucast (sb ! unat i))
        = Inr (acc + ucast (sb ! unat i))"
      using True rd "1.prems" u by (intro "1.IH") simp_all
    with rd True z show ?thesis
      by (simp add: sumAndInvert8_loop.simps [of sb i])
  qed
qed

lemma ComputeMain_blank_save: "ComputeMain blank_save = Inr 0xFF"
proof -
  have "sumAndInvert8_loop blank_save MainChecksumStart MainChecksumEnd 0 = Inr 0"
    by (rule sumAndInvert8_loop_zeros)
      (simp_all add: length_blank_save MainChecksumEnd_def blank_save_nth)
  then show ?thesis
    by (simp add: ComputeMain_def sumAndInvert8_def MainChecksumStart_def MainChecksumEnd_def)
qed

lemma FixMain_blank_save: "FixMain blank_save = (None, blank_save[0x3523 := 0xFF])"
  by (simp add: FixMain_def ComputeMain_blank_save WriteU8_ok MainChecksumOff_def
      length_blank_save)

text \<open>
  Claim C3. For the main checksum, the bank-all checksum of banks 2 and 3 and the
  checksum of each box 1..12, on every buffer that reaches the stored checksum byte (the
  summed range lies before it): the repair succeeds, validation of the repaired buffer
  returns true, and a second repair succeeds and leaves the repaired buffer as it is, so
  the stored byte is the same after one repair and after two.
\<close>

theorem checksum_repair_validates:
  "(unat MainChecksumOff < length sb \<longrightarrow>
      fst (FixMain sb) = None \<and>
      ValidateMain (snd (FixMain sb)) = Inr True \<and>
      FixMain (snd (FixMain sb)) = (None, snd (FixMain sb))) \<and>
   ((bank = 2 \<or> bank = 3) \<and>
    unat (if bank = 2 then Bank2AllChecksumOff else Bank3AllChecksumOff) < length sb \<longrightarrow>
      fst (FixBankAll sb bank) = None \<and>
      ValidateBankAll (snd (FixBankAll sb bank)) bank = Inr True \<and>
      FixBankAll (snd (FixBankAll sb bank)) bank = (None, snd (FixBankAll sb bank))) \<and>
   (1 \<le> box \<and> box \<le> 12 \<and>
    unat (if box \<le> 6 then Bank2BoxChecksumsOff else Bank3BoxChecksumsOff)
      + nat (if box \<le> 6 then box - 1 else box - 7) < length sb \<longrightarrow>
      fst (FixBox sb box) = None \<and>
      ValidateBox (snd (FixBox sb box)) box = Inr True \<and>
      FixBox (snd (FixBox sb box)) box = (None, snd (FixBox sb box)))"
proof (intro conjI impI)
  assume "unat MainChecksumOff < length sb"
  then show "fst (FixMain sb) = None" "ValidateMain (snd (FixMain sb)) = Inr True"
    "FixMain (snd (FixMain sb)) = (None, snd (FixMain sb))"
    by (rule FixMain_repairs)+
next
  assume h: "(bank = 2 \<or> bank = 3) \<and>
    unat (if bank = 2 then Bank2AllChecksumOff else Bank3AllChecksumOff) < length sb"
  then have b: "bank = 2 \<or> bank = 3"
    and l: "unat (if bank = 2 then Bank2AllChecksumOff else Bank3AllChecksumOff) < length sb"
    by simp_all
  show "fst (FixBankAll sb bank) = None"
    "ValidateBankAll (snd (FixBankAll sb bank)) bank = Inr True"
    "FixBankAll (snd (FixBankAll sb bank)) bank = (None, snd (FixBankAll sb bank))"
    by (rule FixBankAll_repairs [OF b l])+
next
  assume h: "1 \<le> box \<and> box \<le> 12 \<and>
    unat (if box \<le> 6 then Bank2BoxChecksumsOff else Bank3BoxChecksumsOff)
      + nat (if box \<le> 6 then box - 1 else box - 7) < length sb"
  then have i: "1 \<le> box" "box \<le> 12"
    and l: "unat (if box \<le> 6 then Bank2BoxChecksumsOff else Bank3BoxChecksumsOff)
      + nat (if box \<le> 6 then box - 1 else box - 7) < length sb"
    by simp_all
  show "fst (FixBox sb box) = None"
    "ValidateBox (snd (FixBox sb box)) box = Inr True"
    "FixBox (snd (FixBox sb box)) box = (None, snd (FixBox sb box))"
    by (rule FixBox_repairs [OF i l])+
qed

text \<open>
  The theorem on the blank save, for the main checksum, bank 3 and box 5. The main
  checksum of the blank save is 0xFF, the complement of the sum 0.
\<close>

theorem checksum_repair_validates_witness:
  "unat MainChecksumOff < length blank_save \<and>
   fst (FixMain blank_save) = None \<and>
   ValidateMain (snd (FixMain blank_save)) = Inr True \<and>
   FixMain (snd (FixMain blank_save)) = (None, snd (FixMain blank_save)) \<and>
   FixMain blank_save = (None, blank_save[0x3523 := 0xFF]) \<and>
   unat Bank3AllChecksumOff < length blank_save \<and>
   fst (FixBankAll blank_save 3) = None \<and>
   ValidateBankAll (snd (FixBankAll blank_save 3)) 3 = Inr True \<and>
   FixBankAll (snd (FixBankAll blank_save 3)) 3 = (None, snd (FixBankAll blank_save 3)) \<and>
   unat Bank2BoxChecksumsOff + nat (5 - 1) < length blank_save \<and>
   fst (FixBox blank_save 5) = None \<and>
   ValidateBox (snd (FixBox blank_save 5)) 5 = Inr True \<and>
   FixBox (snd (FixBox blank_save 5)) 5 = (None, snd (FixBox blank_save 5))"
  using checksum_repair_validates [of blank_save 3 5]
  by (simp add: length_blank_save MainChecksumOff_def Bank3AllChecksumOff_def
      Bank2BoxChecksumsOff_def FixMain_blank_save)

section \<open>The scan of the Hall of Fame\<close>

lemma ByteToAscii_zero_iff: "ByteToAscii b = CHR 0x00 \<longleftrightarrow> b = 0x50"
proof
  assume z: "ByteToAscii b = CHR 0x00"
  show "b = 0x50"
  proof (rule ccontr)
    assume n: "b \<noteq> 0x50"
    have u: "unat b < 256" using unsigned_less [of b, where 'a = nat] by simp
    consider "0x80 \<le> b \<and> b \<le> 0x99" | "\<not> (0x80 \<le> b \<and> b \<le> 0x99)" "0xA0 \<le> b \<and> b \<le> 0xA9"
      | "\<not> (0x80 \<le> b \<and> b \<le> 0x99)" "\<not> (0xA0 \<le> b \<and> b \<le> 0xA9)" by blast
    then show False
    proof cases
      case 1
      then have "128 \<le> unat b" "unat b \<le> 153" by (simp_all add: word_le_nat_alt)
      then have "(char_of (65 + (unat b - 128)) :: char) \<noteq> CHR 0x00"
        by (intro char_of_nonzero) simp_all
      moreover from 1 have "ByteToAscii b = char_of (65 + (unat b - 128))"
        by (simp add: ByteToAscii_def)
      ultimately show False using z by simp
    next
      case 2
      then have "160 \<le> unat b" "unat b \<le> 169" by (simp_all add: word_le_nat_alt)
      then have "(char_of (48 + (unat b - 160)) :: char) \<noteq> CHR 0x00"
        by (intro char_of_nonzero) simp_all
      moreover from 2 have "ByteToAscii b = char_of (48 + (unat b - 160))"
        by (auto simp: ByteToAscii_def)
      ultimately show False using z by simp
    next
      case 3
      with n z show False by (simp add: ByteToAscii_def split: if_splits)
    qed
  qed
next
  assume "b = 0x50"
  then show "ByteToAscii b = CHR 0x00" by (simp add: ByteToAscii_def)
qed

lemma DecodeName_loop_decoded_field: "DecodeName_loop bytes [] = decoded_field bytes"
  by (simp add: DecodeName_loop_eq decoded_field_def ByteToAscii_zero_iff)

lemma unat_slot_off:
  assumes "i < 50" and "j < 6" and "k < 16"
  shows "unat (HallOfFameOff + word_of_nat i * HallOfFameRecordSize
               + word_of_nat j * HallOfFameMonEntrySize + word_of_nat k)
         = slot_base i j + k"
proof -
  define m where "m = slot_base i j + k"
  have "HallOfFameOff + word_of_nat i * HallOfFameRecordSize
          + word_of_nat j * HallOfFameMonEntrySize + word_of_nat k
        = (word_of_nat m :: size_t)"
    by (simp add: HallOfFameOff_def HallOfFameRecordSize_def HallOfFameMonEntrySize_def
        slot_base_def m_def)
  moreover have "m < 2 ^ 64"
    using assms by (simp add: slot_base_def m_def)
  then have "unat (word_of_nat m :: size_t) = m"
    by (simp add: unat_of_nat)
  ultimately show ?thesis by (simp add: m_def)
qed

lemma slot_base_bound:
  assumes "i < 50" and "j < 6"
  shows "slot_base i j + 16 \<le> 0x1858"
  using assms by (simp add: slot_base_def)

lemma HallOfFame_in_range:
  "RequireRange sb HallOfFameOff HallOfFameLen = None \<longleftrightarrow> 0x1858 \<le> length sb"
  by (simp add: RequireRange_None_iff HallOfFameOff_def HallOfFameLen_def)

lemma slot_reads:
  assumes r: "0x1858 \<le> length sb" and i: "i < 50" and j: "j < 6"
  shows "RequireRange sb (HallOfFameOff + word_of_nat i * HallOfFameRecordSize
            + word_of_nat j * HallOfFameMonEntrySize) HallOfFameMonEntrySize = None"
    and "ReadU8 sb (HallOfFameOff + word_of_nat i * HallOfFameRecordSize
            + word_of_nat j * HallOfFameMonEntrySize + 0) = Inr (sb ! slot_base i j)"
    and "ReadU8 sb (HallOfFameOff + word_of_nat i * HallOfFameRecordSize
            + word_of_nat j * HallOfFameMonEntrySize + 1) = Inr (sb ! (slot_base i j + 1))"
    and "DecodeName sb (HallOfFameOff + word_of_nat i * HallOfFameRecordSize
            + word_of_nat j * HallOfFameMonEntrySize + 2) 0x0B
         = Inr (decoded_field (map (\<lambda>k. sb ! k) [slot_base i j + 2 ..< slot_base i j + 13]))"
proof -
  define monOff where "monOff = HallOfFameOff + word_of_nat i * HallOfFameRecordSize
            + word_of_nat j * HallOfFameMonEntrySize"
  have u0: "unat monOff = slot_base i j"
    using unat_slot_off [OF i j, of 0] by (simp add: monOff_def)
  have u1: "unat (monOff + 1) = slot_base i j + 1"
    using unat_slot_off [OF i j, of 1] by (simp add: monOff_def)
  have u2: "unat (monOff + 2) = slot_base i j + 2"
    using unat_slot_off [OF i j, of 2] by (simp add: monOff_def)
  have b: "slot_base i j + 16 \<le> length sb"
    using slot_base_bound [OF i j] r by simp
  have lt: "slot_base i j + 16 < 2 ^ 64"
    using slot_base_bound [OF i j] by simp
  show "RequireRange sb monOff HallOfFameMonEntrySize = None"
    using b lt by (simp add: RequireRange_None_iff HallOfFameMonEntrySize_def u0)
  have "ReadU8 sb monOff = Inr (sb ! slot_base i j)"
    using ReadU8_ok [of monOff sb] b lt by (simp add: u0)
  then show "ReadU8 sb (monOff + 0) = Inr (sb ! slot_base i j)"
    by simp
  show "ReadU8 sb (monOff + 1) = Inr (sb ! (slot_base i j + 1))"
    using ReadU8_ok [of "monOff + 1" sb] b lt by (simp add: u1)
  have rr: "RequireRange sb (monOff + 2) 0x0B = None"
    using b lt by (simp add: RequireRange_None_iff u2)
  have "Slice sb (monOff + 2) 0x0B
      = Inr (map (\<lambda>k. sb ! k) [unat (monOff + 2) ..< unat (monOff + 2) + unat (0x0B :: size_t)])"
    by (rule Slice_ok [OF rr]) simp
  then have "Slice sb (monOff + 2) 0x0B
      = Inr (map (\<lambda>k. sb ! k) [slot_base i j + 2 ..< slot_base i j + 2 + 11])"
    by (simp only: u2 unat_0x0B)
  moreover have "slot_base i j + 2 + 11 = slot_base i j + 13" by simp
  ultimately have "Slice sb (monOff + 2) 0x0B
      = Inr (map (\<lambda>k. sb ! k) [slot_base i j + 2 ..< slot_base i j + 13])"
    by (simp only:)
  then show "DecodeName sb (monOff + 2) 0x0B
      = Inr (decoded_field (map (\<lambda>k. sb ! k) [slot_base i j + 2 ..< slot_base i j + 13]))"
    by (simp only: DecodeName_def DecodeName_loop_decoded_field sum.case)
qed

lemma scan_step_shape:
  "(if E then t
    else if \<not> A then X
    else if \<not> B then X
    else if \<not> C then X else Y m)
   = (case (if E then EndOfTeam else if A \<and> B \<and> C then Member m else Implausible) of
        EndOfTeam \<Rightarrow> t | Implausible \<Rightarrow> X | Member m' \<Rightarrow> Y m')"
  by simp

lemma level_range: "((lvl :: u8) < 1 \<or> lvl > 100) = (\<not> (1 \<le> lvl \<and> lvl \<le> 100))"
  by (simp only: de_Morgan_conj not_le)

lemma HallOfFame_slots_step:
  assumes r: "0x1858 \<le> length sb" and i: "i < 50" and j: "j < 6"
  shows "HallOfFame_slots sb (HallOfFameOff + word_of_nat i * HallOfFameRecordSize) j tm =
     (case slot_at sb i j of
        EndOfTeam \<Rightarrow> Inr tm
      | Implausible \<Rightarrow>
          if j = 0 then Inr []
          else HallOfFame_slots sb (HallOfFameOff + word_of_nat i * HallOfFameRecordSize) (j + 1) tm
      | Member m \<Rightarrow>
          HallOfFame_slots sb (HallOfFameOff + word_of_nat i * HallOfFameRecordSize) (j + 1)
            (tm @ [m]))"
proof -
  note rd = slot_reads [OF r i j]
  from j have j': "j < HallOfFameMonsPerRecord"
    by (simp add: HallOfFameMonsPerRecord_def)
  define species where "species = sb ! slot_base i j"
  define lvl where "lvl = sb ! (slot_base i j + 1)"
  define nm where "nm = decoded_field (map (\<lambda>k. sb ! k) [slot_base i j + 2 ..< slot_base i j + 13])"
  define recordOff where "recordOff = HallOfFameOff + word_of_nat i * HallOfFameRecordSize"
  define X where "X = (if j = 0 then Inr [] else HallOfFame_slots sb recordOff (j + 1) tm)"
  define Y where "Y = (\<lambda>m. HallOfFame_slots sb recordOff (j + 1) (tm @ [m]))"
  define mon where "mon = \<lparr>speciesId = species, speciesName = NameFromId species,
                          level = lvl, name = nm\<rparr>"
  have "HallOfFame_slots sb recordOff j tm =
      (if species = 0 \<or> species = 0xFF then Inr tm
       else if \<not> (1 \<le> species \<and> species \<le> 151) then X
       else if \<not> (1 \<le> lvl \<and> lvl \<le> 100) then X
       else if \<not> NameLooksReasonable nm then X else Y mon)"
    by (subst HallOfFame_slots.simps)
      (simp only: j' if_True Let_def rd [folded recordOff_def] option.case sum.case
        IsLikelyValidGen1SpeciesId_def level_range
        species_def [symmetric] lvl_def [symmetric] nm_def [symmetric]
        X_def [symmetric] Y_def mon_def [symmetric] recordOff_def [symmetric])
  also have "\<dots> = (case (if species = 0 \<or> species = 0xFF then EndOfTeam
                    else if (1 \<le> species \<and> species \<le> 151) \<and> (1 \<le> lvl \<and> lvl \<le> 100)
                            \<and> NameLooksReasonable nm then Member mon
                    else Implausible) of
        EndOfTeam \<Rightarrow> Inr tm | Implausible \<Rightarrow> X | Member m' \<Rightarrow> Y m')"
    by (rule scan_step_shape)
  also have "(if species = 0 \<or> species = 0xFF then EndOfTeam
                    else if (1 \<le> species \<and> species \<le> 151) \<and> (1 \<le> lvl \<and> lvl \<le> 100)
                            \<and> NameLooksReasonable nm then Member mon
                    else Implausible) = slot_at sb i j"
    by (simp add: slot_at_def Let_def species_def lvl_def nm_def mon_def)
  finally show ?thesis
    by (simp only: X_def Y_def recordOff_def)
qed

lemma HallOfFame_slots_from:
  assumes r: "0x1858 \<le> length sb" and i: "i < 50" and j: "0 < j" "j \<le> 6"
  shows "HallOfFame_slots sb (HallOfFameOff + word_of_nat i * HallOfFameRecordSize) j tm
       = Inr (tm @ members_from j (map (slot_at sb i) [j ..< 6]))"
  using j
proof (induction "6 - j" arbitrary: j tm)
  case 0
  then have "j = 6" by simp
  then show ?case
    by (simp add: HallOfFame_slots.simps [of _ _ 6] HallOfFameMonsPerRecord_def)
next
  case (Suc n)
  then have j: "j < 6" and n: "n = 6 - Suc j" and pos: "0 < Suc j" and le: "Suc j \<le> 6"
    by simp_all
  have up: "[j ..< 6] = j # [Suc j ..< 6]"
    using j by (simp add: upt_conv_Cons)
  note IH = Suc.hyps(1) [OF n pos le]
  show ?case
  proof (cases "slot_at sb i j")
    case EndOfTeam
    then show ?thesis
      by (simp add: HallOfFame_slots_step [OF r i j] up)
  next
    case Implausible
    then show ?thesis
      using Suc.prems(1) by (simp add: HallOfFame_slots_step [OF r i j] up IH)
  next
    case (Member m)
    then show ?thesis
      by (simp add: HallOfFame_slots_step [OF r i j] up IH)
  qed
qed

lemma HallOfFame_slots_record:
  assumes r: "0x1858 \<le> length sb" and i: "i < 50"
  shows "HallOfFame_slots sb (HallOfFameOff + word_of_nat i * HallOfFameRecordSize) 0 []
       = Inr (record_team sb i)"
proof -
  have up: "[0 ..< 6] = 0 # [Suc 0 ..< 6]"
    by (simp add: upt_conv_Cons)
  have from1: "\<And>tm. HallOfFame_slots sb (HallOfFameOff + word_of_nat i * HallOfFameRecordSize)
                  (Suc 0) tm
       = Inr (tm @ members_from (Suc 0) (map (slot_at sb i) [Suc 0 ..< 6]))"
    by (rule HallOfFame_slots_from [OF r i]) simp_all
  show ?thesis
  proof (cases "slot_at sb i 0")
    case EndOfTeam
    then show ?thesis
      by (simp add: HallOfFame_slots_step [OF r i, of 0] record_team_def up)
  next
    case Implausible
    then show ?thesis
      by (simp add: HallOfFame_slots_step [OF r i, of 0] record_team_def up)
  next
    case (Member m)
    then show ?thesis
      using from1 [of "[m]"]
      by (simp add: HallOfFame_slots_step [OF r i, of 0] record_team_def up)
  qed
qed

lemma record_in_range:
  assumes r: "0x1858 \<le> length sb" and i: "i < 50"
  shows "RequireRange sb (HallOfFameOff + word_of_nat i * HallOfFameRecordSize)
           HallOfFameRecordSize = None"
proof -
  have "unat (HallOfFameOff + word_of_nat i * HallOfFameRecordSize) = slot_base i 0"
    using unat_slot_off [OF i, of 0 0] by simp
  moreover have "slot_base i 0 + 0x60 \<le> 0x1858"
    using i by (simp add: slot_base_def)
  ultimately show ?thesis
    using r by (simp add: RequireRange_None_iff HallOfFameRecordSize_def)
qed

lemma HallOfFame_records_from:
  assumes r: "0x1858 \<le> length sb" and i: "i \<le> 50"
  shows "HallOfFame_records sb i valid
       = Inr (valid @ map (\<lambda>i. \<lparr>entryIndex = int i + 1, team = record_team sb i\<rparr>)
                       (filter (\<lambda>i. record_team sb i \<noteq> []) [i ..< 50]))"
  using i
proof (induction "50 - i" arbitrary: i valid)
  case 0
  then have "i = 50" by simp
  then show ?case
    by (simp add: HallOfFame_records.simps [of _ 50] HallOfFameMaxRecords_def)
next
  case (Suc n)
  then have i: "i < 50" and n: "n = 50 - Suc i" and le: "Suc i \<le> 50"
    by simp_all
  have up: "[i ..< 50] = i # [Suc i ..< 50]"
    using i by (simp add: upt_conv_Cons)
  note IH = Suc.hyps(1) [OF n le]
  from i have i': "i < HallOfFameMaxRecords"
    by (simp add: HallOfFameMaxRecords_def)
  show ?case
    by (subst HallOfFame_records.simps)
      (simp add: i' Let_def record_in_range [OF r i] HallOfFame_slots_record [OF r i] IH up)
qed

text \<open>
  Claim C2. On every buffer whose Hall-of-Fame region is in range, the scan of the 50
  records returns the valid list of the specification. For each record \<open>i\<close>, the scan
  of its slots returns the members described there, and at each slot \<open>j\<close> with the
  members \<open>tm\<close> accumulated so far: the end-of-team marker returns \<open>tm\<close> and reads no
  further slot; a failing slot 0 returns no member; a failing later slot goes on to slot
  \<open>j + 1\<close> with \<open>tm\<close>; a valid slot goes on with its member added.
\<close>

theorem HallOfFame_scan_refines:
  "RequireRange sb HallOfFameOff HallOfFameLen = None \<longrightarrow>
     HallOfFame_records sb 0 [] = Inr (scanned_records sb) \<and>
     (i < 50 \<longrightarrow>
        HallOfFame_slots sb (HallOfFameOff + word_of_nat i * HallOfFameRecordSize) 0 []
          = Inr (record_team sb i) \<and>
        (j < 6 \<longrightarrow>
           HallOfFame_slots sb (HallOfFameOff + word_of_nat i * HallOfFameRecordSize) j tm =
             (case slot_at sb i j of
                EndOfTeam \<Rightarrow> Inr tm
              | Implausible \<Rightarrow>
                  if j = 0 then Inr []
                  else HallOfFame_slots sb
                         (HallOfFameOff + word_of_nat i * HallOfFameRecordSize) (j + 1) tm
              | Member m \<Rightarrow>
                  HallOfFame_slots sb
                    (HallOfFameOff + word_of_nat i * HallOfFameRecordSize) (j + 1)
                    (tm @ [m]))))"
proof (intro impI conjI)
  assume "RequireRange sb HallOfFameOff HallOfFameLen = None"
  then have r: "0x1858 \<le> length sb" by (simp add: HallOfFame_in_range)
  show "HallOfFame_records sb 0 [] = Inr (scanned_records sb)"
    using HallOfFame_records_from [OF r, of 0 "[]"] by (simp add: scanned_records_def)
  assume i: "i < 50"
  show "HallOfFame_slots sb (HallOfFameOff + word_of_nat i * HallOfFameRecordSize) 0 []
          = Inr (record_team sb i)"
    by (rule HallOfFame_slots_record [OF r i])
  assume j: "j < 6"
  show "HallOfFame_slots sb (HallOfFameOff + word_of_nat i * HallOfFameRecordSize) j tm =
             (case slot_at sb i j of
                EndOfTeam \<Rightarrow> Inr tm
              | Implausible \<Rightarrow>
                  if j = 0 then Inr []
                  else HallOfFame_slots sb
                         (HallOfFameOff + word_of_nat i * HallOfFameRecordSize) (j + 1) tm
              | Member m \<Rightarrow>
                  HallOfFame_slots sb
                    (HallOfFameOff + word_of_nat i * HallOfFameRecordSize) (j + 1)
                    (tm @ [m]))"
    by (rule HallOfFame_slots_step [OF r i j])
qed

section \<open>The window on the valid records\<close>

lemma renumber_loop_eq:
  assumes "i \<le> length valid"
  shows "renumber_loop valid i
       = take i valid @ map (\<lambda>(k, e). e\<lparr>entryIndex := int k + 1\<rparr>) (enumerate i (drop i valid))"
  using assms
proof (induction "length valid - i" arbitrary: i valid)
  case 0
  then have "i = length valid" by simp
  then show ?case by (simp add: renumber_loop.simps [of valid])
next
  case (Suc n)
  then have i: "i < length valid" by simp
  let ?v = "valid[i := (valid ! i)\<lparr>entryIndex := int (i + 1)\<rparr>]"
  have n: "n = length ?v - Suc i" and le: "Suc i \<le> length ?v"
    using Suc.hyps(2) i by simp_all
  have "renumber_loop valid i = renumber_loop ?v (Suc i)"
    using i by (simp add: renumber_loop.simps [of valid i])
  also have "\<dots> = take (Suc i) ?v
      @ map (\<lambda>(k, e). e\<lparr>entryIndex := int k + 1\<rparr>) (enumerate (Suc i) (drop (Suc i) ?v))"
    by (rule Suc.hyps(1) [OF n le])
  also have "take (Suc i) ?v = take i valid @ [(valid ! i)\<lparr>entryIndex := int i + 1\<rparr>]"
    using i by (simp add: take_Suc_conv_app_nth)
  also have "drop (Suc i) ?v = drop (Suc i) valid"
    by simp
  finally have "renumber_loop valid i = take i valid
      @ map (\<lambda>(k, e). e\<lparr>entryIndex := int k + 1\<rparr>)
          ((i, valid ! i) # enumerate (Suc i) (drop (Suc i) valid))"
    by simp
  also have "(i, valid ! i) # enumerate (Suc i) (drop (Suc i) valid) = enumerate i (drop i valid)"
    using i by (simp add: Cons_nth_drop_Suc [symmetric])
  finally show ?case .
qed

lemma newest_loop_eq:
  assumes "i \<le> length valid"
  shows "newest_loop valid i out
       = out @ map (\<lambda>(k, e). e\<lparr>entryIndex := int k + 1\<rparr>)
                 (enumerate (length out) (drop i valid))"
  using assms
proof (induction "length valid - i" arbitrary: i out)
  case 0
  then have "i = length valid" by simp
  then show ?case by (simp add: newest_loop.simps [of valid])
next
  case (Suc n)
  then have i: "i < length valid" by simp
  let ?o = "out @ [(valid ! i)\<lparr>entryIndex := int (length out + 1)\<rparr>]"
  have n: "n = length valid - Suc i" and le: "Suc i \<le> length valid"
    using Suc.hyps(2) i by simp_all
  have "newest_loop valid i out = newest_loop valid (Suc i) ?o"
    using i by (simp add: newest_loop.simps [of valid i])
  also have "\<dots> = ?o @ map (\<lambda>(k, e). e\<lparr>entryIndex := int k + 1\<rparr>)
                 (enumerate (length ?o) (drop (Suc i) valid))"
    by (rule Suc.hyps(1) [OF n le])
  finally have "newest_loop valid i out = out
      @ map (\<lambda>(k, e). e\<lparr>entryIndex := int k + 1\<rparr>)
          ((length out, valid ! i) # enumerate (Suc (length out)) (drop (Suc i) valid))"
    by simp
  also have "(length out, valid ! i) # enumerate (Suc (length out)) (drop (Suc i) valid)
      = enumerate (length out) (drop i valid)"
    using i by (simp add: Cons_nth_drop_Suc [symmetric])
  finally show ?case .
qed

lemma HallOfFame_window_eq:
  assumes "0 \<le> countHint"
  shows "HallOfFame_window countHint valid = windowed (nat countHint) valid"
proof -
  have a: "renumber_loop valid 0 = renumbered valid"
    using renumber_loop_eq [of 0 valid] by (simp add: renumbered_def)
  have b: "newest_loop valid (length valid - nat countHint) []
      = renumbered (drop (length valid - nat countHint) valid)"
    using newest_loop_eq [of "length valid - nat countHint" valid "[]"]
    by (simp add: renumbered_def)
  from assms have c: "int (length valid) \<le> countHint \<longleftrightarrow> length valid \<le> nat countHint"
    by auto
  from assms have d: "countHint = 0 \<longleftrightarrow> nat countHint = 0" by auto
  show ?thesis
    unfolding HallOfFame_window_def windowed_def Let_def a b c d ..
qed

lemma clamp_int_nat:
  "clamp (int n) 0 (int HallOfFameMaxRecords) = int (min n 50)"
  by (simp add: clamp_def HallOfFameMaxRecords_def min_def)

lemma clamp_hint: "nat (clamp (uint (raw :: u8)) 0 (int HallOfFameMaxRecords)) = min (unat raw) 50"
  and clamp_hint_nonneg: "0 \<le> clamp (uint (raw :: u8)) 0 (int HallOfFameMaxRecords)"
proof -
  have e: "uint raw = int (unat raw)" by (rule uint_nat)
  show "nat (clamp (uint raw) 0 (int HallOfFameMaxRecords)) = min (unat raw) 50"
    unfolding e clamp_int_nat by (rule nat_int)
  show "0 \<le> clamp (uint raw) 0 (int HallOfFameMaxRecords)"
    unfolding e clamp_int_nat by (rule of_nat_0_le_iff)
qed

text \<open>
  Claim C1, as the code has it. \<open>GetHallOfFame\<close> reads the count-hint byte at 0x284E
  before it checks the Hall-of-Fame region, so the hint must be readable too. On every
  buffer whose Hall-of-Fame region is in range and whose count-hint byte \<open>raw\<close> is
  read, the scan succeeds with a valid list \<open>V\<close>, and with \<open>h\<close> the hint
  clamped to 0..50, \<open>GetHallOfFame\<close> returns the empty list when \<open>h\<close> is 0, all of \<open>V\<close>
  numbered 1..|V| when \<open>|V| \<le> h\<close>, and the last \<open>h\<close> entries of \<open>V\<close> numbered 1..h
  otherwise.
\<close>

theorem GetHallOfFame_windowing:
  "RequireRange sb HallOfFameOff HallOfFameLen = None \<and>
   ReadU8 sb HallOfFameRecordCountOff = Inr raw \<longrightarrow>
     (\<exists>V. HallOfFame_records sb 0 [] = Inr V \<and>
          GetHallOfFame sb = Inr (windowed (min (unat raw) 50) V))"
proof
  assume h: "RequireRange sb HallOfFameOff HallOfFameLen = None \<and>
   ReadU8 sb HallOfFameRecordCountOff = Inr raw"
  then have r: "0x1858 \<le> length sb" by (simp add: HallOfFame_in_range)
  have scan: "HallOfFame_records sb 0 [] = Inr (scanned_records sb)"
    using HallOfFame_records_from [OF r, of 0 "[]"] by (simp add: scanned_records_def)
  have "GetHallOfFame sb = Inr (HallOfFame_window
          (clamp (uint raw) 0 (int HallOfFameMaxRecords)) (scanned_records sb))"
    using h scan by (simp add: GetHallOfFame_def Let_def)
  also have "HallOfFame_window (clamp (uint raw) 0 (int HallOfFameMaxRecords)) (scanned_records sb)
      = windowed (min (unat raw) 50) (scanned_records sb)"
    by (simp only: HallOfFame_window_eq [OF clamp_hint_nonneg] clamp_hint)
  finally show "\<exists>V. HallOfFame_records sb 0 [] = Inr V \<and>
          GetHallOfFame sb = Inr (windowed (min (unat raw) 50) V)"
    using scan by blast
qed

section \<open>The sample save\<close>

lemma length_sample_save: "length (sample_save hint) = 0x8000"
  by (simp add: sample_save_def hof_slot_def)

lemma sample_save_hint: "sample_save hint ! 0x284E = hint"
  by (simp add: sample_save_def hof_slot_def nth_append)

lemma sample_save_zero:
  assumes "0x598 + 4 * 0x60 \<le> k" and "k < 0x284E"
  shows "sample_save hint ! k = 0"
  using assms by (simp add: sample_save_def hof_slot_def nth_append)

lemma record_team_empty:
  assumes "sb ! slot_base i 0 = 0"
  shows "record_team sb i = []"
proof -
  have "[0 ..< 6] = 0 # [Suc 0 ..< 6]" by (simp add: upt_conv_Cons)
  moreover have "slot_at sb i 0 = EndOfTeam"
    using assms by (simp add: slot_at_def Let_def)
  ultimately show ?thesis by (simp add: record_team_def)
qed

lemma sample_rest_empty:
  assumes "4 \<le> i" and "i < 50"
  shows "record_team (sample_save hint) i = []"
proof -
  have "0x598 + 4 * 0x60 \<le> slot_base i 0" "slot_base i 0 < 0x284E"
    using assms by (simp_all add: slot_base_def)
  then show ?thesis
    by (intro record_team_empty sample_save_zero)
qed

lemmas sample_eval = slot_at_def slot_base_def Let_def sample_save_def hof_slot_def nth_append
  decoded_field_def ByteToAscii_def NameLooksReasonable_def NameFromId_def SpeciesName_def
  char_of_eq_iff

lemma slots_0_to_5: "[0 ..< 6] = [0, Suc 0, 2, 3, 4, 5]"
  by (simp add: upt_rec_numeral upt_conv_Cons)

lemma sample_slots_0:
  "slot_at (sample_save hint) 0 0
     = Member \<lparr>speciesId = 1, speciesName = ''RHYDON'', level = 7, name = ''A''\<rparr>"
  "slot_at (sample_save hint) 0 (Suc 0) = Implausible"
  "slot_at (sample_save hint) 0 2
     = Member \<lparr>speciesId = 3, speciesName = ''NIDORAN_M'', level = 9, name = ''C''\<rparr>"
  "slot_at (sample_save hint) 0 3 = EndOfTeam"
  by (simp_all add: sample_eval)

lemma sample_slots_1:
  "slot_at (sample_save hint) (Suc 0) 0 = Implausible"
  by (simp add: sample_eval)

lemma sample_slots_2:
  "slot_at (sample_save hint) 2 0
     = Member \<lparr>speciesId = 2, speciesName = ''KANGASKHAN'', level = 8, name = ''D''\<rparr>"
  "slot_at (sample_save hint) 2 (Suc 0) = EndOfTeam"
  by (simp_all add: sample_eval)

lemma sample_slots_3:
  "slot_at (sample_save hint) 3 0
     = Member \<lparr>speciesId = 3, speciesName = ''NIDORAN_M'', level = 6, name = ''E''\<rparr>"
  "slot_at (sample_save hint) 3 (Suc 0) = EndOfTeam"
  by (simp_all add: sample_eval)

lemma sample_team_0: "record_team (sample_save hint) 0
    = [\<lparr>speciesId = 1, speciesName = ''RHYDON'', level = 7, name = ''A''\<rparr>,
       \<lparr>speciesId = 3, speciesName = ''NIDORAN_M'', level = 9, name = ''C''\<rparr>]"
  unfolding record_team_def slots_0_to_5 by (simp add: sample_slots_0)

lemma sample_team_1: "record_team (sample_save hint) (Suc 0) = []"
  unfolding record_team_def slots_0_to_5 by (simp add: sample_slots_1)

lemma sample_team_2: "record_team (sample_save hint) 2
    = [\<lparr>speciesId = 2, speciesName = ''KANGASKHAN'', level = 8, name = ''D''\<rparr>]"
  unfolding record_team_def slots_0_to_5 by (simp add: sample_slots_2)

lemma sample_team_3: "record_team (sample_save hint) 3
    = [\<lparr>speciesId = 3, speciesName = ''NIDORAN_M'', level = 6, name = ''E''\<rparr>]"
  unfolding record_team_def slots_0_to_5 by (simp add: sample_slots_3)

lemma sample_scanned: "scanned_records (sample_save hint)
    = [\<lparr>entryIndex = 1, team =
          [\<lparr>speciesId = 1, speciesName = ''RHYDON'', level = 7, name = ''A''\<rparr>,
           \<lparr>speciesId = 3, speciesName = ''NIDORAN_M'', level = 9, name = ''C''\<rparr>]\<rparr>,
       \<lparr>entryIndex = 3, team =
          [\<lparr>speciesId = 2, speciesName = ''KANGASKHAN'', level = 8, name = ''D''\<rparr>]\<rparr>,
       \<lparr>entryIndex = 4, team =
          [\<lparr>speciesId = 3, speciesName = ''NIDORAN_M'', level = 6, name = ''E''\<rparr>]\<rparr>]"
proof -
  have split: "[0 ..< 50] = [0, Suc 0, 2, 3] @ [4 ..< 50]"
    by (simp add: upt_rec_numeral upt_conv_Cons)
  have rest: "filter (\<lambda>i. record_team (sample_save hint) i \<noteq> []) [4 ..< 50] = []"
    by (simp add: sample_rest_empty)
  show ?thesis
    unfolding scanned_records_def split filter_append rest
    by (simp add: sample_team_0 sample_team_1 sample_team_2 sample_team_3)
qed

lemma sample_hypotheses:
  "RequireRange (sample_save hint) HallOfFameOff HallOfFameLen = None"
  "ReadU8 (sample_save hint) HallOfFameRecordCountOff = Inr hint"
proof -
  show "RequireRange (sample_save hint) HallOfFameOff HallOfFameLen = None"
    by (simp add: HallOfFame_in_range length_sample_save)
  have "ReadU8 (sample_save hint) HallOfFameRecordCountOff
      = Inr (sample_save hint ! unat HallOfFameRecordCountOff)"
    by (rule ReadU8_ok) (simp_all add: HallOfFameRecordCountOff_def length_sample_save)
  then show "ReadU8 (sample_save hint) HallOfFameRecordCountOff = Inr hint"
    using sample_save_hint [of hint] by (simp add: HallOfFameRecordCountOff_def)
qed

text \<open>
  The theorem on the sample save: the scan keeps records 1, 3 and 4; record 1 (\<open>i = 0\<close>)
  has the members of its slots 0 and 2; at its slot 1, which has level 0, the scan goes on
  with the member of slot 0 and ends with both members.
\<close>

theorem HallOfFame_scan_refines_witness:
  "RequireRange (sample_save 2) HallOfFameOff HallOfFameLen = None \<and>
   HallOfFame_records (sample_save 2) 0 []
     = Inr [\<lparr>entryIndex = 1, team =
              [\<lparr>speciesId = 1, speciesName = ''RHYDON'', level = 7, name = ''A''\<rparr>,
               \<lparr>speciesId = 3, speciesName = ''NIDORAN_M'', level = 9, name = ''C''\<rparr>]\<rparr>,
            \<lparr>entryIndex = 3, team =
              [\<lparr>speciesId = 2, speciesName = ''KANGASKHAN'', level = 8, name = ''D''\<rparr>]\<rparr>,
            \<lparr>entryIndex = 4, team =
              [\<lparr>speciesId = 3, speciesName = ''NIDORAN_M'', level = 6, name = ''E''\<rparr>]\<rparr>] \<and>
   (0 :: nat) < 50 \<and>
   HallOfFame_slots (sample_save 2) HallOfFameOff 0 []
     = Inr [\<lparr>speciesId = 1, speciesName = ''RHYDON'', level = 7, name = ''A''\<rparr>,
            \<lparr>speciesId = 3, speciesName = ''NIDORAN_M'', level = 9, name = ''C''\<rparr>] \<and>
   Suc 0 < 6 \<and>
   HallOfFame_slots (sample_save 2) HallOfFameOff (Suc 0)
       [\<lparr>speciesId = 1, speciesName = ''RHYDON'', level = 7, name = ''A''\<rparr>]
     = Inr [\<lparr>speciesId = 1, speciesName = ''RHYDON'', level = 7, name = ''A''\<rparr>,
            \<lparr>speciesId = 3, speciesName = ''NIDORAN_M'', level = 9, name = ''C''\<rparr>]"
proof -
  have from2: "HallOfFame_slots (sample_save 2) HallOfFameOff 2
       [\<lparr>speciesId = 1, speciesName = ''RHYDON'', level = 7, name = ''A''\<rparr>]
     = Inr [\<lparr>speciesId = 1, speciesName = ''RHYDON'', level = 7, name = ''A''\<rparr>,
            \<lparr>speciesId = 3, speciesName = ''NIDORAN_M'', level = 9, name = ''C''\<rparr>]"
    using HallOfFame_slots_from [of "sample_save 2" 0 2]
    by (simp add: length_sample_save upt_rec_numeral sample_slots_0)
  show ?thesis
    using HallOfFame_scan_refines [of "sample_save 2" 0 "Suc 0"
        "[\<lparr>speciesId = 1, speciesName = ''RHYDON'', level = 7, name = ''A''\<rparr>]"]
    by (simp add: sample_hypotheses sample_scanned sample_team_0 sample_slots_0
        numeral_2_eq_2 [symmetric] from2)
qed

text \<open>
  The theorem on the sample save with hint 2: of the three valid records, the last two
  are returned, numbered 1 and 2.
\<close>

theorem GetHallOfFame_windowing_witness:
  "RequireRange (sample_save 2) HallOfFameOff HallOfFameLen = None \<and>
   ReadU8 (sample_save 2) HallOfFameRecordCountOff = Inr 2 \<and>
   GetHallOfFame (sample_save 2)
     = Inr [\<lparr>entryIndex = 1, team =
              [\<lparr>speciesId = 2, speciesName = ''KANGASKHAN'', level = 8, name = ''D''\<rparr>]\<rparr>,
            \<lparr>entryIndex = 2, team =
              [\<lparr>speciesId = 3, speciesName = ''NIDORAN_M'', level = 6, name = ''E''\<rparr>]\<rparr>]"
proof -
  from GetHallOfFame_windowing [of "sample_save 2" 2] obtain V
    where V: "HallOfFame_records (sample_save 2) 0 [] = Inr V"
      and g: "GetHallOfFame (sample_save 2) = Inr (windowed (min (unat (2 :: u8)) 50) V)"
    using sample_hypotheses [of 2] by blast
  have "HallOfFame_records (sample_save 2) 0 [] = Inr (scanned_records (sample_save 2))"
    using HallOfFame_records_from [of "sample_save 2" 0 "[]"]
    by (simp add: length_sample_save scanned_records_def)
  with V have "V = scanned_records (sample_save 2)" by simp
  with g show ?thesis
    by (simp add: sample_hypotheses sample_scanned windowed_def renumbered_def enumerate_eq_zip
        upt_rec_numeral)
qed

text \<open>
  Claim C1 as stated fails on the buffer of 0x1858 zero bytes: its Hall-of-Fame region,
  0x0598 to 0x1857, is in range, and \<open>GetHallOfFame\<close> throws the out-of-range exception
  of the read of the count-hint byte at 0x284E instead of returning a list.
\<close>

theorem GetHallOfFame_hint_counterexample:
  "RequireRange (replicate 0x1858 0) HallOfFameOff HallOfFameLen = None \<and>
   GetHallOfFame (replicate 0x1858 0) = Inl OffsetOutOfRange"
proof -
  have r: "RequireRange (replicate 0x1858 0) HallOfFameOff HallOfFameLen = None"
    by (simp add: HallOfFame_in_range)
  have "RequireRange (replicate 0x1858 0) HallOfFameRecordCountOff 1 = Some OffsetOutOfRange"
    by (simp add: RequireRange_def Size_def HallOfFameRecordCountOff_def)
  then have "ReadU8 (replicate 0x1858 0) HallOfFameRecordCountOff = Inl OffsetOutOfRange"
    by (simp add: ReadU8_def)
  then have "GetHallOfFame (replicate 0x1858 0) = Inl OffsetOutOfRange"
    by (simp add: GetHallOfFame_def)
  with r show ?thesis by simp
qed

end
